theory Spec2Isabelle
  imports Main "HOL-Library.Word"
begin

section \<open>The aligner driver of edlib (apps/aligner/aligner.cpp)\<close>

text \<open>
  The file holds four functions: \<open>read_input\<close> (one pair of lines from a stream),
  \<open>main\<close> (command line, benchmark loop), \<open>readFastaSequences\<close> (FASTA parser) and
  \<open>printAlignment\<close> (wrapped rendering of an edit script). Bytes are \<^typ>\<open>char\<close>,
  buffers and streams are \<^typ>\<open>char list\<close>. A C \<open>int\<close> is an \<^typ>\<open>int\<close> between
  \<open>INT_MIN\<close> and \<open>INT_MAX\<close>; an operation whose behaviour C leaves undefined (signed
  overflow, a read outside a buffer, a stream function on a null stream) yields \<open>None\<close>.
\<close>

subsection \<open>C integers, buffers and streams\<close>

abbreviation LF :: char where "LF \<equiv> CHR 0x0A"
abbreviation CR :: char where "CR \<equiv> CHR 0x0D"

definition INT_MAX :: int where
  "INT_MAX = 2147483647"

definition INT_MIN :: int where
  "INT_MIN = - 2147483648"

text \<open>The value of a signed \<open>int\<close> expression: undefined when it does not fit.\<close>

definition c_int :: "int \<Rightarrow> int option" where
  "c_int v = (if INT_MIN \<le> v \<and> v \<le> INT_MAX then Some v else None)"

text \<open>
  Conversion of a wider integer to \<open>int\<close> (\<open>ssize_t\<close> to \<open>int\<close> in \<open>read_input\<close>): the value
  modulo \<open>2 ^ 32\<close>, read as a signed 32-bit number.
\<close>

definition to_int :: "int \<Rightarrow> int" where
  "to_int v = sint (word_of_int v :: 32 word)"

text \<open>\<open>p[i]\<close> on a buffer of known extent: undefined outside it.\<close>

definition at :: "'a list \<Rightarrow> int \<Rightarrow> 'a option" where
  "at xs i = (if 0 \<le> i \<and> i < int (length xs) then Some (xs ! nat i) else None)"

text \<open>
  An open stream: the bytes not yet read and the end-of-file indicator. The file system is
  a map from paths to contents; \<open>fopen\<close> of a path outside it returns the null pointer.
\<close>

record cfile =
  remaining :: "char list"
  eof :: bool

definition fopen :: "(string \<rightharpoonup> char list) \<Rightarrow> string \<Rightarrow> cfile option" where
  "fopen fs path = (case fs path of None \<Rightarrow> None
     | Some bytes \<Rightarrow> Some \<lparr>remaining = bytes, eof = False\<rparr>)"

text \<open>
  \<open>fread(buffer, 1, n, file)\<close>: the next \<open>n\<close> bytes, or all that are left; the indicator is
  set when the read runs into the end of the file.
\<close>

definition fread :: "nat \<Rightarrow> cfile \<Rightarrow> char list \<times> cfile" where
  "fread n f = (take n (remaining f),
     \<lparr>remaining = drop n (remaining f), eof = (eof f \<or> length (remaining f) < n)\<rparr>)"

subsection \<open>readFastaSequences\<close>

record fasta_state =
  inHeader :: bool
  inSequence :: bool
  seqs :: "char list list"

text \<open>\<open>seqs->back().push_back(c)\<close>; \<open>back()\<close> of an empty vector is undefined.\<close>

definition back_push_back :: "char list list \<Rightarrow> char \<Rightarrow> char list list option" where
  "back_push_back ss c = (case ss of [] \<Rightarrow> None | _ \<Rightarrow> Some (butlast ss @ [last ss @ [c]]))"

text \<open>The body of the inner \<open>for\<close> loop, for one byte \<open>c\<close> of the buffer.\<close>

definition fasta_byte :: "fasta_state \<Rightarrow> char \<Rightarrow> fasta_state option" where
  "fasta_byte st c =
     (if inHeader st then
        (if c = LF then Some (st\<lparr>inHeader := False\<rparr>) else Some st)
      else if c = CHR ''>'' then Some (st\<lparr>inHeader := True, inSequence := False\<rparr>)
      else if c = CR \<or> c = LF then Some st
      else
        (let st1 = (if inSequence st = False
                    then st\<lparr>inSequence := True, seqs := seqs st @ [[]]\<rparr> else st)
         in case back_push_back (seqs st1) c of
              None \<Rightarrow> None
            | Some ss \<Rightarrow> Some (st1\<lparr>seqs := ss\<rparr>)))"

text \<open>\<open>for(int i = 0; i < read; ++i)\<close> over the bytes that \<open>fread\<close> delivered.\<close>

fun fasta_buffer :: "fasta_state \<Rightarrow> char list \<Rightarrow> fasta_state option" where
  "fasta_buffer st [] = Some st"
| "fasta_buffer st (c # cs) =
     (case fasta_byte st c of None \<Rightarrow> None | Some st' \<Rightarrow> fasta_buffer st' cs)"

definition buffSize :: nat where
  "buffSize = 4096"

text \<open>\<open>while(!feof(file))\<close>: one buffer per iteration.\<close>

function fasta_loop :: "fasta_state \<Rightarrow> cfile \<Rightarrow> fasta_state option" where
  "fasta_loop st file =
     (if \<not> eof file then
        (case fread buffSize file of
           (buffer, file') \<Rightarrow>
             (case fasta_buffer st buffer of
                None \<Rightarrow> None
              | Some st' \<Rightarrow> fasta_loop st' file'))
      else Some st)"
  by pat_completeness auto
termination
  by (relation "measure (\<lambda>(st, f). length (remaining f) + (if eof f then 0 else 1))")
     (auto simp: fread_def buffSize_def)

declare fasta_loop.simps [simp del]

text \<open>
  The return code and the contents of \<open>*seqs\<close> on return: \<open>(1, [])\<close> when the file cannot be
  opened (the vector was cleared first), \<open>(0, records)\<close> otherwise.
\<close>

definition readFastaSequences ::
  "(string \<rightharpoonup> char list) \<Rightarrow> string \<Rightarrow> (int \<times> char list list) option" where
  "readFastaSequences fs path =
     (case fopen fs path of
        None \<Rightarrow> Some (1, [])
      | Some file \<Rightarrow>
          (case fasta_loop \<lparr>inHeader = False, inSequence = False, seqs = []\<rparr> file of
             None \<Rightarrow> None
           | Some st \<Rightarrow> Some (0, seqs st)))"

subsection \<open>read_input\<close>

text \<open>
  \<open>getline(lineptr, n, stream)\<close> of the C library: the bytes up to and including the next
  newline, or up to the end of the stream when no newline is left; no line (the return value
  \<open>-1\<close>) when the stream is exhausted. The return value of a successful call is the number
  of bytes of the line.
\<close>

definition getline :: "cfile \<Rightarrow> string option \<times> cfile" where
  "getline f =
     (case remaining f of
        [] \<Rightarrow> (None, f\<lparr>eof := True\<rparr>)
      | _ \<Rightarrow>
          (case dropWhile (\<lambda>c. c \<noteq> LF) (remaining f) of
             [] \<Rightarrow> (Some (remaining f), \<lparr>remaining = [], eof = True\<rparr>)
           | nl # rest \<Rightarrow>
               (Some (takeWhile (\<lambda>c. c \<noteq> LF) (remaining f) @ [nl]), f\<lparr>remaining := rest\<rparr>)))"

text \<open>
  The four output parameters of \<open>read_input\<close>: the two line buffers and the two lengths.
  A buffer is left as it was when its \<open>getline\<close> fails (the caller does not read it then).
\<close>

record input_pair =
  line1 :: string
  line2 :: string
  line1_length :: int
  line2_length :: int

text \<open>
  The result is the returned \<open>bool\<close>, the output parameters and the stream after the call.
  A null \<open>input_file\<close> makes the first \<open>getline\<close> undefined.
\<close>

definition read_input :: "cfile option \<Rightarrow> input_pair \<Rightarrow> (bool \<times> input_pair \<times> cfile) option" where
  "read_input input_file v =
     (case input_file of
        None \<Rightarrow> None
      | Some f \<Rightarrow>
          (case getline f of
             (r1, f1) \<Rightarrow>
               (let v1 = (case r1 of
                            None \<Rightarrow> v\<lparr>line1_length := - 1\<rparr>
                          | Some l \<Rightarrow> v\<lparr>line1 := l, line1_length := to_int (int (length l))\<rparr>)
                in if line1_length v1 = - 1 then Some (False, v1, f1)
                   else
                     (case getline f1 of
                        (r2, f2) \<Rightarrow>
                          (let v2 = (case r2 of
                                       None \<Rightarrow> v1\<lparr>line2_length := - 1\<rparr>
                                     | Some l \<Rightarrow>
                                         v1\<lparr>line2 := l, line2_length := to_int (int (length l))\<rparr>)
                           in if line2_length v2 = - 1 then Some (False, v2, f2)
                              else Some (True, v2, f2))))))"

subsection \<open>main\<close>

text \<open>
  Modelled from the spec: the header \<open>edlib.h\<close> of the alignment engine, which declares
  \<open>EdlibAlignMode\<close>, \<open>EdlibAlignTask\<close>, \<open>EdlibAlignConfig\<close> and the engine's functions, is
  not among the sources. The modes are SHW, HW and NW, the tasks are distance, location and
  path, and a request carries the score cutoff, the mode and the task. A call of the engine
  is an event of the program's trace; what the engine computes is not modelled.
\<close>

datatype EdlibAlignMode = EDLIB_MODE_NW | EDLIB_MODE_SHW | EDLIB_MODE_HW

datatype EdlibAlignTask = EDLIB_TASK_DISTANCE | EDLIB_TASK_LOC | EDLIB_TASK_PATH

text \<open>
  The value of \<open>edlibNewAlignConfig(k, modeCode, alignTask, NULL, 0)\<close>; the last two
  arguments are the same in every call.
\<close>

record EdlibAlignConfig =
  cfg_k :: int
  cfg_mode :: EdlibAlignMode
  cfg_task :: EdlibAlignTask

text \<open>
  What the program does that can be observed: text on standard output, the usage text on
  standard error (lines 77 to 108, with \<open>argv[0]\<close>), readings of the clock, calls of the
  engine with their four sequence arguments and configuration, releases of results and of
  line buffers, and the final report of the CPU time (a floating-point number, not modelled).
\<close>

datatype event =
    Stdout string
  | Usage string
  | Clock
  | EdlibAlign string int string int EdlibAlignConfig
  | EdlibFreeAlignResult
  | Free string
  | CpuTime

text \<open>The variables that the option loop sets, with their initial values.\<close>

record options =
  silent :: bool
  mode :: string
  numBestSeqs :: int
  findAlignment :: bool
  findStartLocations :: bool
  kArg :: int
  numRepeats :: int
  alignmentFormat :: string
  invalidOption :: bool

definition initial_options :: options where
  "initial_options =
     \<lparr>silent = False, mode = ''NW'', numBestSeqs = 0, findAlignment = False,
      findStartLocations = False, kArg = - 1, numRepeats = 1, alignmentFormat = ''NICE'',
      invalidOption = False\<rparr>"

text \<open>
  \<open>strcpy\<close> into \<open>char[16]\<close>: the string and its terminator must fit, otherwise the
  behaviour is undefined.
\<close>

definition strcpy16 :: "string \<Rightarrow> string option" where
  "strcpy16 src = (if length src < 16 then Some src else None)"

text \<open>
  \<open>atoi\<close> of the C library: leading white space, an optional sign, then decimal digits up to
  the first other byte; undefined when the number is not an \<open>int\<close>.
\<close>

definition isspace :: "char \<Rightarrow> bool" where
  "isspace c = (c = CHR '' '' \<or> (9 \<le> (of_char c :: nat) \<and> (of_char c :: nat) \<le> 13))"

definition isdigit :: "char \<Rightarrow> bool" where
  "isdigit c = (48 \<le> (of_char c :: nat) \<and> (of_char c :: nat) \<le> 57)"

fun digits_value :: "int \<Rightarrow> string \<Rightarrow> int" where
  "digits_value acc [] = acc"
| "digits_value acc (c # cs) =
     (if isdigit c then digits_value (10 * acc + (of_char c - 48)) cs else acc)"

definition atoi :: "string \<Rightarrow> int option" where
  "atoi s =
     (case dropWhile isspace s of
        [] \<Rightarrow> Some 0
      | c # cs \<Rightarrow>
          if c = CHR ''-'' then c_int (- digits_value 0 cs)
          else if c = CHR ''+'' then c_int (digits_value 0 cs)
          else c_int (digits_value 0 (c # cs)))"

text \<open>
  The \<open>switch\<close> of the option loop, for one result of \<open>getopt\<close>: the option character it
  returned and \<open>optarg\<close>.
\<close>

definition option_case :: "options \<Rightarrow> char \<Rightarrow> string \<Rightarrow> options option" where
  "option_case opt option optarg =
     (if option = CHR ''m'' then
        (case strcpy16 optarg of None \<Rightarrow> None | Some s \<Rightarrow> Some (opt\<lparr>mode := s\<rparr>))
      else if option = CHR ''n'' then
        (case atoi optarg of None \<Rightarrow> None | Some n \<Rightarrow> Some (opt\<lparr>numBestSeqs := n\<rparr>))
      else if option = CHR ''k'' then
        (case atoi optarg of None \<Rightarrow> None | Some n \<Rightarrow> Some (opt\<lparr>kArg := n\<rparr>))
      else if option = CHR ''f'' then
        (case strcpy16 optarg of None \<Rightarrow> None | Some s \<Rightarrow> Some (opt\<lparr>alignmentFormat := s\<rparr>))
      else if option = CHR ''s'' then Some (opt\<lparr>silent := True\<rparr>)
      else if option = CHR ''p'' then Some (opt\<lparr>findAlignment := True\<rparr>)
      else if option = CHR ''l'' then Some (opt\<lparr>findStartLocations := True\<rparr>)
      else if option = CHR ''r'' then
        (case atoi optarg of None \<Rightarrow> None | Some n \<Rightarrow> Some (opt\<lparr>numRepeats := n\<rparr>))
      else Some (opt\<lparr>invalidOption := True\<rparr>))"

text \<open>
  \<open>while((option = getopt(argc, argv, "m:n:k:f:r:spl")) >= 0)\<close>. The scanning of \<open>argv\<close> is
  the C library's: the loop is given the results of the successive calls of \<open>getopt\<close>, each
  an option character (\<open>?\<close> for an unknown option or a missing argument) with \<open>optarg\<close>.
\<close>

fun getopt_loop :: "options \<Rightarrow> (char \<times> string) list \<Rightarrow> options option" where
  "getopt_loop opt [] = Some opt"
| "getopt_loop opt ((option, optarg) # rest) =
     (case option_case opt option optarg of
        None \<Rightarrow> None
      | Some opt' \<Rightarrow> getopt_loop opt' rest)"

text \<open>
  One call of the engine and the release of its result:
  \<open>edlibAlign(query + 1, queryLength - 1, target + 1, targetLength - 1, config)\<close>.
  The pointer \<open>query + 1\<close> is the line buffer without its first byte.
\<close>

definition align_call :: "input_pair \<Rightarrow> EdlibAlignConfig \<Rightarrow> event list option" where
  "align_call v cfg =
     (case c_int (line1_length v - 1) of
        None \<Rightarrow> None
      | Some qlen \<Rightarrow>
          (case c_int (line2_length v - 1) of
             None \<Rightarrow> None
           | Some tlen \<Rightarrow>
               Some [EdlibAlign (drop 1 (line1 v)) qlen (drop 1 (line2 v)) tlen cfg,
                     EdlibFreeAlignResult]))"

text \<open>\<open>for(int rep = 0; rep < numRepeats; rep++)\<close>.\<close>

function repeat_loop :: "int \<Rightarrow> int \<Rightarrow> input_pair \<Rightarrow> EdlibAlignConfig \<Rightarrow> event list option" where
  "repeat_loop rep n v cfg =
     (if rep < n then
        (case align_call v cfg of
           None \<Rightarrow> None
         | Some es \<Rightarrow>
             (case repeat_loop (rep + 1) n v cfg of
                None \<Rightarrow> None
              | Some rest \<Rightarrow> Some (es @ rest)))
      else Some [])"
  by pat_completeness auto
termination
  by (relation "measure (\<lambda>(rep, n, v, cfg). nat (n - rep))") auto

declare repeat_loop.simps [simp del]

text \<open>
  A successful \<open>getline\<close> takes a non-empty line off the front of the stream, so each
  successful \<open>read_input\<close> leaves a shorter stream: the loop of \<open>main\<close> terminates.
\<close>

lemma getline_split:
  assumes "getline g = (r, g')"
  shows "remaining g = (case r of None \<Rightarrow> [] | Some l \<Rightarrow> l) @ remaining g' \<and> r \<noteq> Some []"
proof (cases "remaining g")
  case Nil
  then show ?thesis using assms by (auto simp: getline_def)
next
  case (Cons c cs)
  show ?thesis
  proof (cases "dropWhile (\<lambda>c. c \<noteq> LF) (remaining g)")
    case Nil
    then show ?thesis using assms Cons by (auto simp: getline_def)
  next
    case (Cons nl rest)
    have "takeWhile (\<lambda>c. c \<noteq> LF) (remaining g) @ dropWhile (\<lambda>c. c \<noteq> LF) (remaining g) =
        remaining g"
      by (rule takeWhile_dropWhile_id)
    then show ?thesis
      using assms Cons \<open>remaining g = c # cs\<close> by (auto simp: getline_def)
  qed
qed

lemma read_input_shrinks:
  assumes "read_input fl v = Some (True, v', f')"
  shows "\<exists>f. fl = Some f \<and> length (remaining f') < length (remaining f)"
proof -
  from assms obtain f where f: "fl = Some f"
    by (cases fl) (auto simp: read_input_def)
  obtain r1 f1 where g1: "getline f = (r1, f1)"
    by (cases "getline f")
  obtain r2 f2 where g2: "getline f1 = (r2, f2)"
    by (cases "getline f1")
  have ok: "r1 \<noteq> None \<and> f' = f2"
    using assms f g1 g2
    by (auto simp: read_input_def Let_def split: option.splits if_splits)
  then have "length (remaining f1) < length (remaining f)"
    using getline_split [OF g1] by (cases r1) (auto simp: neq_Nil_conv)
  moreover have "length (remaining f2) \<le> length (remaining f1)"
    using getline_split [OF g2] by simp
  ultimately show ?thesis using f ok by simp
qed

text \<open>\<open>while(read_input(file, &query, &target, &queryLength, &targetLength))\<close>.\<close>

function align_loop ::
  "cfile option \<Rightarrow> input_pair \<Rightarrow> int \<Rightarrow> EdlibAlignConfig \<Rightarrow> event list option" where
  "align_loop file v n cfg =
     (case read_input file v of
        None \<Rightarrow> None
      | Some (ok, v', file') \<Rightarrow>
          if ok then
            (case repeat_loop 0 n v' cfg of
               None \<Rightarrow> None
             | Some es \<Rightarrow>
                 (case align_loop (Some file') v' n cfg of
                    None \<Rightarrow> None
                  | Some rest \<Rightarrow> Some (es @ [Free (line1 v'), Free (line2 v')] @ rest)))
          else Some [])"
  by pat_completeness auto
termination
  by (relation "measure (\<lambda>(fl, v, n, cfg).
        (case fl of None \<Rightarrow> 0 | Some f \<Rightarrow> length (remaining f)))")
     (auto dest: read_input_shrinks)

declare align_loop.simps [simp del]

text \<open>
  \<open>query\<close>, \<open>queryLength\<close>, \<open>target\<close> and \<open>targetLength\<close> are declared without a value;
  none is read before \<open>read_input\<close> has set it.
\<close>

definition unset_pair :: input_pair where
  "unset_pair = \<lparr>line1 = [], line2 = [], line1_length = 0, line2_length = 0\<rparr>"

text \<open>
  The program: \<open>argv0\<close> is \<open>argv[0]\<close>, \<open>opts\<close> are the results of \<open>getopt\<close>, \<open>operands\<close> are
  the arguments from \<open>argv[optind]\<close> on, so that \<open>optind + 1 != argc\<close> says that there is
  not exactly one operand. The result is the trace and the exit code, or \<open>None\<close> when the
  run meets undefined behaviour.
\<close>

definition main ::
  "string \<Rightarrow> (char \<times> string) list \<Rightarrow> string list \<Rightarrow> (string \<rightharpoonup> char list)
     \<Rightarrow> (event list \<times> int) option" where
  "main argv0 opts operands fs =
     (case getopt_loop initial_options opts of
        None \<Rightarrow> None
      | Some opt \<Rightarrow>
          if length operands \<noteq> 1 \<or> invalidOption opt then Some ([Usage argv0], 1)
          else if alignmentFormat opt \<noteq> ''NICE'' \<and> alignmentFormat opt \<noteq> ''CIG_STD'' \<and>
                  alignmentFormat opt \<noteq> ''CIG_EXT''
          then Some ([Stdout ''Invalid alignment path format (-f)!\<newline>''], 1)
          else if mode opt \<noteq> ''SHW'' \<and> mode opt \<noteq> ''HW'' \<and> mode opt \<noteq> ''NW''
          then Some ([Stdout ''Invalid mode (-m)!\<newline>''], 1)
          else
            (let modeCode = (if mode opt = ''SHW'' then EDLIB_MODE_SHW
                             else if mode opt = ''HW'' then EDLIB_MODE_HW
                             else EDLIB_MODE_NW);
                 alignTask = (if findAlignment opt then EDLIB_TASK_PATH
                              else if findStartLocations opt then EDLIB_TASK_LOC
                              else EDLIB_TASK_DISTANCE);
                 queriesFilepath = hd operands;
                 file = fopen fs queriesFilepath;
                 k = kArg opt
             in case align_loop file unset_pair (numRepeats opt)
                       \<lparr>cfg_k = k, cfg_mode = modeCode, cfg_task = alignTask\<rparr> of
                  None \<Rightarrow> None
                | Some es \<Rightarrow>
                    Some ([Stdout (''Using '' @ mode opt @ '' alignment mode.\<newline>''),
                           Stdout ''\<newline>Comparing queries to target...\<newline>'',
                           Clock] @ es @ [Clock, CpuTime], 0)))"

subsection \<open>printAlignment\<close>

text \<open>
  Modelled from the spec: the four edit operation codes \<open>EDLIB_EDOP_MATCH\<close>,
  \<open>EDLIB_EDOP_INSERT\<close>, \<open>EDLIB_EDOP_DELETE\<close> and \<open>EDLIB_EDOP_MISMATCH\<close> are macros of
  \<open>edlib.h\<close>, which is not among the sources. The spec names the four operations; they are
  given four different bytes here (0 to 3, as in edlib), and the properties proved for every
  script use none of the values.

  The edit script is an array of bytes (\<open>unsigned char\<close>), so a script may hold other bytes
  too. \<open>alignmentLength\<close> is a parameter of its own, and a read of \<open>alignment\<close>, \<open>target\<close> or
  \<open>query\<close> outside the buffer is undefined.
\<close>

definition EDLIB_EDOP_MATCH :: "8 word" where
  "EDLIB_EDOP_MATCH = 0"

definition EDLIB_EDOP_INSERT :: "8 word" where
  "EDLIB_EDOP_INSERT = 1"

definition EDLIB_EDOP_DELETE :: "8 word" where
  "EDLIB_EDOP_DELETE = 2"

definition EDLIB_EDOP_MISMATCH :: "8 word" where
  "EDLIB_EDOP_MISMATCH = 3"

text \<open>
  What \<open>printAlignment\<close> prints, call by call: \<open>Text s\<close> for a \<open>printf\<close> of the fixed string
  \<open>s\<close> or of one character, \<open>TargetRange lo hi\<close> for \<open>printf(" (%d - %d)\n", lo, hi)\<close> and
  \<open>QueryRange lo hi\<close> for \<open>printf(" (%d - %d)\n\n", lo, hi)\<close>.
\<close>

datatype printed =
    Text string
  | TargetRange int int
  | QueryRange int int

text \<open>
  The first loop, run in mode HW: \<open>for(int i = 0; i < alignmentLength; i++)\<close>, from
  \<open>tIdx = position\<close>.
\<close>

function hw_loop :: "8 word list \<Rightarrow> int \<Rightarrow> int \<Rightarrow> int \<Rightarrow> int option" where
  "hw_loop alignment alignmentLength i tIdx =
     (if i < alignmentLength then
        (case at alignment i of
           None \<Rightarrow> None
         | Some a \<Rightarrow>
             (case (if a \<noteq> EDLIB_EDOP_INSERT then c_int (tIdx - 1) else Some tIdx) of
                None \<Rightarrow> None
              | Some tIdx' \<Rightarrow> hw_loop alignment alignmentLength (i + 1) tIdx'))
      else Some tIdx)"
  by pat_completeness auto
termination
  by (relation "measure (\<lambda>(alignment, alignmentLength, i, tIdx). nat (alignmentLength - i))")
     auto

declare hw_loop.simps [simp del]

text \<open>
  The loop of the target line, \<open>for(int j = start; j < start + 50 && j < alignmentLength; j++)\<close>.
  The state is \<open>tIdx\<close> and \<open>startTIdx\<close>; the result is what was printed and the final state.
\<close>

function target_loop ::
  "string \<Rightarrow> 8 word list \<Rightarrow> int \<Rightarrow> int \<Rightarrow> int \<Rightarrow> int \<Rightarrow> int
     \<Rightarrow> (printed list \<times> int \<times> int) option" where
  "target_loop target alignment alignmentLength start j tIdx startTIdx =
     (case c_int (start + 50) of
        None \<Rightarrow> None
      | Some lim \<Rightarrow>
          if j < lim \<and> j < alignmentLength then
            (case at alignment j of
               None \<Rightarrow> None
             | Some a \<Rightarrow>
                 (case (if a = EDLIB_EDOP_INSERT then Some (Text ''-'', tIdx)
                        else (case c_int (tIdx + 1) of
                                None \<Rightarrow> None
                              | Some t \<Rightarrow>
                                  (case at target t of
                                     None \<Rightarrow> None
                                   | Some c \<Rightarrow> Some (Text [c], t)))) of
                    None \<Rightarrow> None
                  | Some (p, tIdx') \<Rightarrow>
                      (case target_loop target alignment alignmentLength start (j + 1) tIdx'
                              (if j = start then tIdx' else startTIdx) of
                         None \<Rightarrow> None
                       | Some (ps, r) \<Rightarrow> Some (p # ps, r))))
          else Some ([], tIdx, startTIdx))"
  by pat_completeness auto
termination
  by (relation "measure (\<lambda>(target, alignment, alignmentLength, start, j, tIdx, startTIdx).
        nat (alignmentLength - j))") auto

declare target_loop.simps [simp del]

text \<open>The loop of the marker line.\<close>

function marker_loop :: "8 word list \<Rightarrow> int \<Rightarrow> int \<Rightarrow> int \<Rightarrow> printed list option" where
  "marker_loop alignment alignmentLength start j =
     (case c_int (start + 50) of
        None \<Rightarrow> None
      | Some lim \<Rightarrow>
          if j < lim \<and> j < alignmentLength then
            (case at alignment j of
               None \<Rightarrow> None
             | Some a \<Rightarrow>
                 (case marker_loop alignment alignmentLength start (j + 1) of
                    None \<Rightarrow> None
                  | Some ps \<Rightarrow>
                      Some (Text (if a = EDLIB_EDOP_MATCH then ''|'' else '' '') # ps)))
          else Some [])"
  by pat_completeness auto
termination
  by (relation "measure (\<lambda>(alignment, alignmentLength, start, j). nat (alignmentLength - j))")
     auto

declare marker_loop.simps [simp del]

text \<open>The loop of the query line; the state is \<open>qIdx\<close> and \<open>startQIdx\<close>.\<close>

function query_loop ::
  "string \<Rightarrow> 8 word list \<Rightarrow> int \<Rightarrow> int \<Rightarrow> int \<Rightarrow> int \<Rightarrow> int
     \<Rightarrow> (printed list \<times> int \<times> int) option" where
  "query_loop query alignment alignmentLength start j qIdx startQIdx =
     (case c_int (start + 50) of
        None \<Rightarrow> None
      | Some lim \<Rightarrow>
          if j < lim \<and> j < alignmentLength then
            (case at alignment j of
               None \<Rightarrow> None
             | Some a \<Rightarrow>
                 (case (if a = EDLIB_EDOP_DELETE then Some (Text ''-'', qIdx)
                        else (case c_int (qIdx + 1) of
                                None \<Rightarrow> None
                              | Some q \<Rightarrow>
                                  (case at query q of
                                     None \<Rightarrow> None
                                   | Some c \<Rightarrow> Some (Text [c], q)))) of
                    None \<Rightarrow> None
                  | Some (p, qIdx') \<Rightarrow>
                      (case query_loop query alignment alignmentLength start (j + 1) qIdx'
                              (if j = start then qIdx' else startQIdx) of
                         None \<Rightarrow> None
                       | Some (ps, r) \<Rightarrow> Some (p # ps, r))))
          else Some ([], qIdx, startQIdx))"
  by pat_completeness auto
termination
  by (relation "measure (\<lambda>(query, alignment, alignmentLength, start, j, qIdx, startQIdx).
        nat (alignmentLength - j))") auto

declare query_loop.simps [simp del]

text \<open>
  The outer loop, \<open>for(int start = 0; start < alignmentLength; start += 50)\<close>: the three
  lines of one window, then the rest.
\<close>

function window_loop ::
  "string \<Rightarrow> string \<Rightarrow> 8 word list \<Rightarrow> int \<Rightarrow> int \<Rightarrow> int \<Rightarrow> int \<Rightarrow> printed list option" where
  "window_loop query target alignment alignmentLength start tIdx qIdx =
     (if start < alignmentLength then
        (case target_loop target alignment alignmentLength start start tIdx (- 1) of
           None \<Rightarrow> None
         | Some (tline, tIdx', startTIdx) \<Rightarrow>
             (case marker_loop alignment alignmentLength start start of
                None \<Rightarrow> None
              | Some mline \<Rightarrow>
                  (case query_loop query alignment alignmentLength start start qIdx qIdx of
                     None \<Rightarrow> None
                   | Some (qline, qIdx', startQIdx) \<Rightarrow>
                       (case c_int (start + 50) of
                          None \<Rightarrow> None
                        | Some start' \<Rightarrow>
                            (case window_loop query target alignment alignmentLength start'
                                    tIdx' qIdx' of
                               None \<Rightarrow> None
                             | Some rest \<Rightarrow>
                                 Some ([Text ''T: ''] @ tline @
                                       [TargetRange (max startTIdx 0) tIdx'] @
                                       [Text ''   ''] @ mline @ [Text ''\<newline>''] @
                                       [Text ''Q: ''] @ qline @
                                       [QueryRange (max startQIdx 0) qIdx'] @ rest))))))
      else Some [])"
  by pat_completeness auto
termination
  by (relation "measure (\<lambda>(query, target, alignment, alignmentLength, start, tIdx, qIdx).
        nat (alignmentLength - start))") (auto simp: c_int_def split: if_splits)

declare window_loop.simps [simp del]

definition printAlignment ::
  "string \<Rightarrow> string \<Rightarrow> 8 word list \<Rightarrow> int \<Rightarrow> int \<Rightarrow> EdlibAlignMode \<Rightarrow> printed list option" where
  "printAlignment query target alignment alignmentLength position modeCode =
     (case (if modeCode = EDLIB_MODE_HW
            then hw_loop alignment alignmentLength 0 position else Some (- 1)) of
        None \<Rightarrow> None
      | Some tIdx \<Rightarrow> window_loop query target alignment alignmentLength 0 tIdx (- 1))"

subsection \<open>Specification of the FASTA parser\<close>




definition fasta_entry :: "string \<times> string \<Rightarrow> char list" where
  "fasta_entry e = CHR ''>'' # fst e @ LF # snd e"

definition strip_breaks :: "char list \<Rightarrow> char list" where
  "strip_breaks b = filter (\<lambda>c. c \<noteq> CR \<and> c \<noteq> LF) b"

definition wf_entry :: "string \<times> string \<Rightarrow> bool" where
  "wf_entry e = (LF \<notin> set (fst e) \<and> CHR ''>'' \<notin> set (fst e) \<and> CHR ''>'' \<notin> set (snd e) \<and>
     strip_breaks (snd e) \<noteq> [])"

subsection \<open>Specification of the reader and the driver\<close>

text \<open>The pairs that successive calls of \<open>read_input\<close> return, up to the first \<open>false\<close>.\<close>

function read_pairs :: "cfile \<Rightarrow> input_pair \<Rightarrow> input_pair list" where
  "read_pairs f v =
     (case read_input (Some f) v of
        None \<Rightarrow> []
      | Some (ok, v', f') \<Rightarrow> if ok then v' # read_pairs f' v' else [])"
  by pat_completeness auto
termination
  by (relation "measure (\<lambda>(f, v). length (remaining f))") (auto dest: read_input_shrinks)

declare read_pairs.simps [simp del]

text \<open>Consecutive lines taken two by two; a last line without a partner is left out.\<close>

fun pair_up :: "'a list \<Rightarrow> ('a \<times> 'a) list" where
  "pair_up [] = []"
| "pair_up [a] = []"
| "pair_up (a # b # rest) = (a, b) # pair_up rest"

text \<open>
  A line of a stream: not empty, no newline before its last byte, shorter than \<open>2 ^ 31\<close>
  bytes. In a stream every line but the last ends with a newline.
\<close>

definition is_line :: "string \<Rightarrow> bool" where
  "is_line l = (l \<noteq> [] \<and> LF \<notin> set (butlast l) \<and> int (length l) \<le> INT_MAX)"

definition lines_ok :: "string list \<Rightarrow> bool" where
  "lines_ok ls = ((\<forall>l \<in> set ls. is_line l) \<and> (\<forall>l \<in> set (butlast ls). last l = LF))"

text \<open>The request configuration that \<open>main\<close> builds from the options.\<close>

definition config_of :: "options \<Rightarrow> EdlibAlignConfig" where
  "config_of opt =
     \<lparr>cfg_k = kArg opt,
      cfg_mode = (if mode opt = ''SHW'' then EDLIB_MODE_SHW
                  else if mode opt = ''HW'' then EDLIB_MODE_HW else EDLIB_MODE_NW),
      cfg_task = (if findAlignment opt then EDLIB_TASK_PATH
                  else if findStartLocations opt then EDLIB_TASK_LOC
                  else EDLIB_TASK_DISTANCE)\<rparr>"

text \<open>
  The events of one pair: \<open>n\<close> times a call of the engine on the two lines without their
  first byte, with lengths one less than the lines', followed by the release of the result;
  then the release of the two line buffers.
\<close>

definition pair_events :: "int \<Rightarrow> EdlibAlignConfig \<Rightarrow> input_pair \<Rightarrow> event list" where
  "pair_events n cfg v =
     concat (replicate (nat n)
       [EdlibAlign (drop 1 (line1 v)) (line1_length v - 1)
          (drop 1 (line2 v)) (line2_length v - 1) cfg,
        EdlibFreeAlignResult])
     @ [Free (line1 v), Free (line2 v)]"

text \<open>The sequence the engine reads from a buffer: its first \<open>len\<close> bytes.\<close>

definition engine_view :: "string \<Rightarrow> int \<Rightarrow> string" where
  "engine_view buf len = take (nat len) buf"

text \<open>The options pass the three checks that precede the computation.\<close>

definition options_valid :: "options \<Rightarrow> bool" where
  "options_valid opt =
     (invalidOption opt = False \<and>
      alignmentFormat opt \<in> {''NICE'', ''CIG_STD'', ''CIG_EXT''} \<and>
      mode opt \<in> {''SHW'', ''HW'', ''NW''})"

text \<open>The whole trace of a run that reaches the computation, for the pairs \<open>vs\<close>.\<close>

definition run_trace :: "options \<Rightarrow> input_pair list \<Rightarrow> event list" where
  "run_trace opt vs =
     [Stdout (''Using '' @ mode opt @ '' alignment mode.\<newline>''),
      Stdout ''\<newline>Comparing queries to target...\<newline>'',
      Clock]
     @ concat (map (pair_events (numRepeats opt) (config_of opt)) vs)
     @ [Clock, CpuTime]"

text \<open>Two option records agree on everything but \<open>numBestSeqs\<close>.\<close>

definition same_but_numBestSeqs :: "options \<Rightarrow> options \<Rightarrow> bool" where
  "same_but_numBestSeqs a b =
     (silent a = silent b \<and> mode a = mode b \<and> findAlignment a = findAlignment b \<and>
      findStartLocations a = findStartLocations b \<and> kArg a = kArg b \<and>
      numRepeats a = numRepeats b \<and> alignmentFormat a = alignmentFormat b \<and>
      invalidOption a = invalidOption b)"

subsection \<open>Specification of the renderer\<close>

text \<open>The edit script cut into windows of 50 operations; the last one may be shorter.\<close>

function windows :: "'a list \<Rightarrow> 'a list list" where
  "windows ops = (if ops = [] then [] else take 50 ops # windows (drop 50 ops))"
  by pat_completeness auto
termination
  by (relation "measure length") auto

declare windows.simps [simp del]

text \<open>
  A cursor is the index of the last symbol of a sequence shown so far, \<open>-1\<close> before the
  first. The operations other than \<open>gap\<close> each show one symbol: \<open>consumed gap ops\<close> is by how
  much \<open>ops\<close> advance the cursor.
\<close>

definition consumed :: "8 word \<Rightarrow> 8 word list \<Rightarrow> int" where
  "consumed gap ops = int (length (filter (\<lambda>a. a \<noteq> gap) ops))"

text \<open>A sequence line: \<open>-\<close> for the gap operation, the next symbol of the sequence otherwise.\<close>

fun sequence_line :: "8 word \<Rightarrow> string \<Rightarrow> int \<Rightarrow> 8 word list \<Rightarrow> printed list" where
  "sequence_line gap s cur [] = []"
| "sequence_line gap s cur (a # ops) =
     (if a = gap then Text ''-'' # sequence_line gap s cur ops
      else Text [s ! nat (cur + 1)] # sequence_line gap s (cur + 1) ops)"

text \<open>The marker line: \<open>|\<close> for MATCH, a space for anything else.\<close>

definition marker_line :: "8 word list \<Rightarrow> printed list" where
  "marker_line ops = map (\<lambda>a. Text (if a = EDLIB_EDOP_MATCH then ''|'' else '' '')) ops"

text \<open>
  The three lines of the window \<open>w\<close>, from the cursors \<open>t\<close> and \<open>q\<close>. The coordinate of a
  column of a sequence line is the cursor after its operation: the index of the symbol that
  the column shows, or of the last symbol shown before a gap. The range after a sequence
  line runs from the coordinate of the first column of the window, or 0 when that is
  negative, to the coordinate of the last.
\<close>

definition window_lines :: "string \<Rightarrow> string \<Rightarrow> int \<Rightarrow> int \<Rightarrow> 8 word list \<Rightarrow> printed list" where
  "window_lines query target t q w =
     [Text ''T: ''] @ sequence_line EDLIB_EDOP_INSERT target t w @
     [TargetRange (max (t + consumed EDLIB_EDOP_INSERT (take 1 w)) 0)
        (t + consumed EDLIB_EDOP_INSERT w)] @
     [Text ''   ''] @ marker_line w @ [Text ''\<newline>''] @
     [Text ''Q: ''] @ sequence_line EDLIB_EDOP_DELETE query q w @
     [QueryRange (max (q + consumed EDLIB_EDOP_DELETE (take 1 w)) 0)
        (q + consumed EDLIB_EDOP_DELETE w)]"

fun render :: "string \<Rightarrow> string \<Rightarrow> int \<Rightarrow> int \<Rightarrow> 8 word list list \<Rightarrow> printed list" where
  "render query target t q [] = []"
| "render query target t q (w # ws) =
     window_lines query target t q w @
     render query target (t + consumed EDLIB_EDOP_INSERT w) (q + consumed EDLIB_EDOP_DELETE w) ws"

text \<open>
  The target cursor before the first window: in mode HW the anchor position minus the number
  of operations other than INSERT, \<open>-1\<close> in the other modes.
\<close>

definition start_cursor :: "EdlibAlignMode \<Rightarrow> int \<Rightarrow> 8 word list \<Rightarrow> int" where
  "start_cursor modeCode position alignment =
     (if modeCode = EDLIB_MODE_HW then position - consumed EDLIB_EDOP_INSERT alignment else - 1)"

section \<open>Properties of readFastaSequences\<close>

lemma fasta_buffer_append:
  "fasta_buffer st (xs @ ys) =
     (case fasta_buffer st xs of None \<Rightarrow> None | Some st' \<Rightarrow> fasta_buffer st' ys)"
  by (induction xs arbitrary: st) (auto split: option.splits)

lemma fasta_loop_buffer:
  "fasta_loop st f = (if eof f then Some st else fasta_buffer st (remaining f))"
proof (induction st f rule: fasta_loop.induct)
  case (1 st f)
  show ?case
  proof (cases "eof f")
    case True
    then show ?thesis by (subst fasta_loop.simps) simp
  next
    case False
    obtain buffer g' where fr: "fread buffSize f = (buffer, g')"
      by (cases "fread buffSize f")
    have b: "buffer = take buffSize (remaining f)"
      and r: "remaining g' = drop buffSize (remaining f)"
      and e: "eof g' = (length (remaining f) < buffSize)"
      using fr False by (auto simp: fread_def)
    have split: "remaining f = buffer @ remaining g'"
      by (simp add: b r)
    show ?thesis
    proof (cases "fasta_buffer st buffer")
      case None
      then show ?thesis
        using False fr by (subst fasta_loop.simps) (simp add: split fasta_buffer_append)
    next
      case (Some st')
      have ih: "fasta_loop st' g' =
          (if eof g' then Some st' else fasta_buffer st' (remaining g'))"
        using "1.IH" [OF False fr [symmetric] Some] .
      have rest: "eof g' \<Longrightarrow> remaining g' = []"
        by (simp add: e r)
      show ?thesis
        using False fr Some ih rest
        by (subst fasta_loop.simps) (auto simp: split fasta_buffer_append)
    qed
  qed
qed

lemma back_push_back_snoc: "back_push_back (ys @ [y]) c = Some (ys @ [y @ [c]])"
proof -
  have "ys @ [y] \<noteq> []" by simp
  then obtain z zs where e: "ys @ [y] = z # zs" by (cases "ys @ [y]") auto
  have "butlast (ys @ [y]) @ [last (ys @ [y]) @ [c]] = ys @ [y @ [c]]" by simp
  then show ?thesis unfolding back_push_back_def using e by (simp split: list.splits)
qed





lemma readFasta_open:
  "fs path = Some bytes \<Longrightarrow>
   readFastaSequences fs path =
     (case fasta_buffer \<lparr>inHeader = False, inSequence = False, seqs = []\<rparr> bytes of
        None \<Rightarrow> None | Some st \<Rightarrow> Some (0, seqs st))"
  by (simp add: readFastaSequences_def fopen_def fasta_loop_buffer del: fasta_loop.simps)





lemma fasta_header_skip:
  "inHeader st \<Longrightarrow> LF \<notin> set h \<Longrightarrow>
   fasta_buffer st (h @ LF # ys) = fasta_buffer (st\<lparr>inHeader := False\<rparr>) ys"
  by (induction h) (auto simp: fasta_byte_def)

lemma fasta_body_cont:
  "\<not> inHeader st \<Longrightarrow> inSequence st \<Longrightarrow> seqs st = ys @ [y] \<Longrightarrow> CHR ''>'' \<notin> set b \<Longrightarrow>
   fasta_buffer st b = Some (st\<lparr>seqs := ys @ [y @ strip_breaks b]\<rparr>)"
proof (induction b arbitrary: st y)
  case Nil
  then show ?case by (simp add: strip_breaks_def)
next
  case (Cons c b)
  show ?case
  proof (cases "c = CR \<or> c = LF")
    case True
    then have "fasta_byte st c = Some st"
      using Cons.prems by (auto simp: fasta_byte_def)
    then show ?thesis
      using Cons.IH [of st y] Cons.prems True by (auto simp: strip_breaks_def)
  next
    case False
    let ?st1 = "st\<lparr>seqs := ys @ [y @ [c]]\<rparr>"
    have "fasta_byte st c = Some ?st1"
      using Cons.prems False by (auto simp: fasta_byte_def back_push_back_snoc)
    then show ?thesis
      using Cons.IH [of ?st1 "y @ [c]"] Cons.prems False by (auto simp: strip_breaks_def)
  qed
qed

lemma fasta_body_new:
  "\<not> inHeader st \<Longrightarrow> \<not> inSequence st \<Longrightarrow> CHR ''>'' \<notin> set b \<Longrightarrow> strip_breaks b \<noteq> [] \<Longrightarrow>
   fasta_buffer st b = Some (st\<lparr>inSequence := True, seqs := seqs st @ [strip_breaks b]\<rparr>)"
proof (induction b)
  case Nil
  then show ?case by (simp add: strip_breaks_def)
next
  case (Cons c b)
  show ?case
  proof (cases "c = CR \<or> c = LF")
    case True
    then have "fasta_byte st c = Some st"
      using Cons.prems by (auto simp: fasta_byte_def)
    then show ?thesis
      using Cons True by (auto simp: strip_breaks_def)
  next
    case False
    let ?st1 = "st\<lparr>inSequence := True, seqs := seqs st @ [[c]]\<rparr>"
    have "fasta_byte st c = Some ?st1"
      using Cons.prems False back_push_back_snoc [of "seqs st" "[]" c]
      by (auto simp: fasta_byte_def)
    then show ?thesis
      using fasta_body_cont [of ?st1 "seqs st" "[c]" b] Cons.prems False
      by (auto simp: strip_breaks_def)
  qed
qed

lemma fasta_one_entry:
  assumes "\<not> inHeader st" "wf_entry e"
  shows "fasta_buffer st (fasta_entry e @ rest) =
           fasta_buffer (st\<lparr>inSequence := True, seqs := seqs st @ [strip_breaks (snd e)]\<rparr>) rest"
proof -
  let ?st1 = "st\<lparr>inHeader := True, inSequence := False\<rparr>"
  let ?st2 = "?st1\<lparr>inHeader := False\<rparr>"
  let ?st3 = "?st2\<lparr>inSequence := True, seqs := seqs ?st2 @ [strip_breaks (snd e)]\<rparr>"
  have "fasta_byte st (CHR ''>'') = Some ?st1"
    using assms by (simp add: fasta_byte_def)
  then have "fasta_buffer st (fasta_entry e @ rest) = fasta_buffer ?st1 (fst e @ LF # (snd e @ rest))"
    by (simp add: fasta_entry_def)
  also have "\<dots> = fasta_buffer ?st2 (snd e @ rest)"
    using assms by (intro fasta_header_skip) (simp_all add: wf_entry_def)
  also have "\<dots> = fasta_buffer ?st3 rest"
    using fasta_body_new [of ?st2 "snd e"] assms
    by (simp add: wf_entry_def fasta_buffer_append)
  also have "?st3 = st\<lparr>inSequence := True, seqs := seqs st @ [strip_breaks (snd e)]\<rparr>"
    using assms(1) by (cases st) simp
  finally show ?thesis .
qed

lemma fasta_entries:
  "\<not> inHeader st \<Longrightarrow> \<forall>e \<in> set es. wf_entry e \<Longrightarrow>
   \<exists>st'. fasta_buffer st (concat (map fasta_entry es)) = Some st' \<and>
         seqs st' = seqs st @ map (\<lambda>e. strip_breaks (snd e)) es"
proof (induction es arbitrary: st)
  case Nil
  then show ?case by simp
next
  case (Cons e es)
  let ?st1 = "st\<lparr>inSequence := True, seqs := seqs st @ [strip_breaks (snd e)]\<rparr>"
  have "fasta_buffer st (concat (map fasta_entry (e # es))) =
          fasta_buffer ?st1 (concat (map fasta_entry es))"
    using fasta_one_entry [of st e "concat (map fasta_entry es)"] Cons.prems by simp
  moreover obtain st' where "fasta_buffer ?st1 (concat (map fasta_entry es)) = Some st'"
    and "seqs st' = seqs ?st1 @ map (\<lambda>e. strip_breaks (snd e)) es"
    using Cons.IH [of ?st1] Cons.prems by auto
  ultimately show ?case by simp
qed

lemma count_markers_entries:
  "\<forall>e \<in> set es. wf_entry e \<Longrightarrow>
   count_list (concat (map fasta_entry es)) (CHR ''>'') = length es"
proof (induction es)
  case Nil
  then show ?case by simp
next
  case (Cons e es)
  then have "CHR ''>'' \<notin> set (fst e)" "CHR ''>'' \<notin> set (snd e)"
    by (simp_all add: wf_entry_def)
  then have "count_list (fasta_entry e) (CHR ''>'') = 1"
    by (simp add: fasta_entry_def count_list_0_iff)
  then show ?case using Cons by simp
qed

text \<open>
  Claim C1 fails as stated: a header with no sequence line after it gives no record, so the
  file below has two markers and one record.
\<close>

theorem fasta_record_count_counterexample:
  "readFastaSequences [''s.fa'' \<mapsto> ''>s1\<newline>>s2\<newline>ACGT\<newline>''] ''s.fa'' = Some (0, [''ACGT'']) \<and>
   count_list ''>s1\<newline>>s2\<newline>ACGT\<newline>'' (CHR ''>'') = 2 \<and>
   length [''ACGT''] \<noteq> (2 :: nat)"
  by code_simp

text \<open>
  Claim C1, amended. For a file made of entries, each a marker \<open>>\<close>, a header line free of
  \<open>>\<close>, its newline, and a body free of \<open>>\<close> that holds at least one byte other than a line
  break, \<open>readFastaSequences\<close> returns 0 and one record per entry (the body without its line
  breaks), and the number of records is the number of \<open>>\<close> bytes of the file.
\<close>

theorem fasta_record_count:
  assumes "fs path = Some (concat (map fasta_entry es))" and "\<forall>e \<in> set es. wf_entry e"
  shows "\<exists>recs. readFastaSequences fs path = Some (0, recs) \<and>
           recs = map (\<lambda>e. strip_breaks (snd e)) es \<and>
           length recs = count_list (concat (map fasta_entry es)) (CHR ''>'')"
proof -
  let ?init = "\<lparr>inHeader = False, inSequence = False, seqs = []\<rparr>"
  obtain st where "fasta_buffer ?init (concat (map fasta_entry es)) = Some st"
    and "seqs st = map (\<lambda>e. strip_breaks (snd e)) es"
    using fasta_entries [of ?init es] assms(2) by auto
  then show ?thesis
    using readFasta_open [of fs path "concat (map fasta_entry es)"] assms(1)
      count_markers_entries [OF assms(2)] by simp
qed

theorem fasta_record_count_witness:
  "wf_entry (''s1'', ''AC\<newline>GT\<newline>'') \<and> wf_entry (''s2 x'', ''TT'') \<and>
   readFastaSequences [''s.fa'' \<mapsto> ''>s1\<newline>AC\<newline>GT\<newline>>s2 x\<newline>TT''] ''s.fa'' =
     Some (0, [''ACGT'', ''TT'']) \<and>
   length [''ACGT'', ''TT''] = count_list ''>s1\<newline>AC\<newline>GT\<newline>>s2 x\<newline>TT'' (CHR ''>'')"
proof -
  let ?es = "[(''s1'', ''AC\<newline>GT\<newline>''), (''s2 x'', ''TT'')]"
  let ?bytes = "''>s1\<newline>AC\<newline>GT\<newline>>s2 x\<newline>TT''"
  have b: "concat (map fasta_entry ?es) = ?bytes"
    by (simp add: fasta_entry_def)
  have h1: "[''s.fa'' \<mapsto> ?bytes] ''s.fa'' = Some (concat (map fasta_entry ?es))"
    by (simp add: fasta_entry_def)
  have h2: "\<forall>e \<in> set ?es. wf_entry e"
    by (simp add: wf_entry_def strip_breaks_def)
  have s: "map (\<lambda>e. strip_breaks (snd e)) ?es = [''ACGT'', ''TT'']"
    by (simp add: strip_breaks_def)
  from fasta_record_count [of "[''s.fa'' \<mapsto> ?bytes]" "''s.fa''" ?es] h1 h2 show ?thesis
    unfolding b s by auto
qed

section \<open>Properties of read_input and main\<close>

lemma to_int_range: "INT_MIN \<le> to_int v \<and> to_int v \<le> INT_MAX"
proof -
  have "- (2 ^ (LENGTH(32) - 1)) \<le> sint (word_of_int v :: 32 word)"
    by (rule sint_ge)
  moreover have "sint (word_of_int v :: 32 word) < 2 ^ (LENGTH(32) - 1)"
    by (rule sint_lt)
  ultimately show ?thesis
    by (simp add: to_int_def INT_MIN_def INT_MAX_def)
qed

lemma to_int_id: "0 \<le> v \<Longrightarrow> v \<le> INT_MAX \<Longrightarrow> to_int v = v"
  by (simp add: to_int_def INT_MAX_def int_word_sint)

lemma getline_line:
  assumes "is_line l" and "remaining f = l @ rest" and "rest = [] \<or> last l = LF"
  shows "\<exists>f'. getline f = (Some l, f') \<and> remaining f' = rest"
proof (cases "last l = LF")
  case True
  with assms(1) obtain b where l: "l = b @ [LF]" and b: "LF \<notin> set b"
    by (cases l rule: rev_cases) (auto simp: is_line_def)
  have d: "dropWhile (\<lambda>c. c \<noteq> LF) (b @ LF # rest) = LF # rest"
    using b by (subst dropWhile_append2) auto
  have t: "takeWhile (\<lambda>c. c \<noteq> LF) (b @ LF # rest) = b"
    using b by (subst takeWhile_append2) auto
  have ne: "remaining f = b @ LF # rest"
    using assms(2) l by simp
  show ?thesis
    unfolding getline_def ne d t using l
    by (cases "b @ LF # rest") auto
next
  case False
  with assms have rest: "rest = []" by simp
  from assms(1) False have nolf: "LF \<notin> set l"
    by (cases l rule: rev_cases) (auto simp: is_line_def)
  then have d: "dropWhile (\<lambda>c. c \<noteq> LF) l = []"
    by auto
  from assms(1) obtain c cs where "l = c # cs"
    by (cases l) (auto simp: is_line_def)
  then show ?thesis
    using assms(2) rest d by (simp add: getline_def)
qed

lemma getline_empty: "remaining f = [] \<Longrightarrow> fst (getline f) = None"
  by (simp add: getline_def)

lemma is_line_length: "is_line l \<Longrightarrow> to_int (int (length l)) = int (length l) \<and> 0 < length l"
  by (simp add: is_line_def to_int_id)

lemma read_input_two_lines:
  assumes "is_line l1" "is_line l2" "last l1 = LF" "rest = [] \<or> last l2 = LF"
    and "remaining f = l1 @ l2 @ rest"
  shows "\<exists>f'. read_input (Some f) v =
            Some (True, v\<lparr>line1 := l1, line1_length := int (length l1),
                         line2 := l2, line2_length := int (length l2)\<rparr>, f') \<and>
          remaining f' = rest"
proof -
  from getline_line [OF assms(1), of f "l2 @ rest"] assms(3,5)
  obtain f1 where g1: "getline f = (Some l1, f1)" and r1: "remaining f1 = l2 @ rest"
    by auto
  from getline_line [OF assms(2) r1 assms(4)]
  obtain f2 where g2: "getline f1 = (Some l2, f2)" and r2: "remaining f2 = rest"
    by auto
  show ?thesis
    using g1 g2 r2 is_line_length [OF assms(1)] is_line_length [OF assms(2)]
    by (simp add: read_input_def)
qed

lemma read_input_one_line:
  assumes "is_line l" and "remaining f = l"
  shows "\<exists>v' f'. read_input (Some f) v = Some (False, v', f')"
proof -
  from getline_line [OF assms(1), of f "[]"] assms(2)
  obtain f1 where g1: "getline f = (Some l, f1)" and r1: "remaining f1 = []"
    by auto
  obtain r2 f2 where g2: "getline f1 = (r2, f2)"
    by (cases "getline f1")
  with getline_empty [OF r1] have "r2 = None" by simp
  then show ?thesis
    using g1 g2 is_line_length [OF assms(1)] by (simp add: read_input_def)
qed

lemma read_input_no_line:
  assumes "remaining f = []"
  shows "\<exists>v' f'. read_input (Some f) v = Some (False, v', f')"
proof -
  obtain r1 f1 where g1: "getline f = (r1, f1)"
    by (cases "getline f")
  with getline_empty [OF assms] have "r1 = None" by simp
  then show ?thesis
    using g1 by (simp add: read_input_def)
qed

lemma lines_ok_Cons2:
  "lines_ok (l1 # l2 # rest) \<Longrightarrow>
     is_line l1 \<and> is_line l2 \<and> last l1 = LF \<and> (rest = [] \<or> last l2 = LF) \<and> lines_ok rest"
  by (cases "rest = []") (auto simp: lines_ok_def)

lemma read_pairs_lines:
  "lines_ok ls \<Longrightarrow> remaining f = concat ls \<Longrightarrow>
   map (\<lambda>v. (line1 v, line2 v)) (read_pairs f v) = pair_up ls"
proof (induction ls arbitrary: f v rule: pair_up.induct)
  case 1
  then obtain v' f' where "read_input (Some f) v = Some (False, v', f')"
    using read_input_no_line [of f v] by auto
  then show ?case by (subst read_pairs.simps) simp
next
  case (2 l)
  then have "is_line l" "remaining f = l"
    by (simp_all add: lines_ok_def)
  then obtain v' f' where "read_input (Some f) v = Some (False, v', f')"
    using read_input_one_line [of l f v] by auto
  then show ?case by (subst read_pairs.simps) simp
next
  case (3 l1 l2 rest)
  from lines_ok_Cons2 [OF "3.prems"(1)]
  have l: "is_line l1" "is_line l2" "last l1 = LF" "rest = [] \<or> last l2 = LF" "lines_ok rest"
    by simp_all
  have c: "concat rest = [] \<or> last l2 = LF"
    using l(4) by auto
  from read_input_two_lines [OF l(1,2,3) c, of f v] "3.prems"(2)
  obtain f' where r: "read_input (Some f) v =
      Some (True, v\<lparr>line1 := l1, line1_length := int (length l1),
                   line2 := l2, line2_length := int (length l2)\<rparr>, f')"
    and f': "remaining f' = concat rest"
    by auto
  show ?case
    using r "3.IH" [OF l(5) f'] by (subst read_pairs.simps) simp
qed

lemma length_pair_up: "length (pair_up ls) = length ls div 2"
  by (induction ls rule: pair_up.induct) simp_all

lemma pair_up_odd: "odd (length ls) \<Longrightarrow> pair_up ls = pair_up (butlast ls)"
  by (induction ls rule: pair_up.induct) (auto split: if_splits)


lemma read_input_Some: "\<exists>ok v' f'. read_input (Some f) v = Some (ok, v', f')"
  by (auto simp: read_input_def Let_def split: prod.splits option.splits)

lemma read_input_lengths:
  assumes "read_input (Some f) v = Some (True, v', f')"
  shows "line1_length v' = to_int (int (length (line1 v'))) \<and>
         line2_length v' = to_int (int (length (line2 v'))) \<and>
         line1 v' \<noteq> [] \<and> line2 v' \<noteq> []"
proof -
  obtain r1 f1 where g1: "getline f = (r1, f1)"
    by (cases "getline f")
  obtain r2 f2 where g2: "getline f1 = (r2, f2)"
    by (cases "getline f1")
  show ?thesis
    using assms g1 g2 getline_split [OF g1] getline_split [OF g2]
    by (auto simp: read_input_def Let_def split: option.splits if_splits)
qed

lemma read_pairs_lengths:
  "v \<in> set (read_pairs f v0) \<Longrightarrow>
     line1_length v = to_int (int (length (line1 v))) \<and>
     line2_length v = to_int (int (length (line2 v))) \<and>
     line1 v \<noteq> [] \<and> line2 v \<noteq> []"
proof (induction f v0 rule: read_pairs.induct)
  case (1 f v0)
  obtain ok v' f' where r: "read_input (Some f) v0 = Some (ok, v', f')"
    using read_input_Some by blast
  show ?case
  proof (cases ok)
    case True
    then have "read_pairs f v0 = v' # read_pairs f' v'"
      using r by (subst read_pairs.simps) simp
    with "1.prems" have "v = v' \<or> v \<in> set (read_pairs f' v')"
      by simp
    moreover from r True have r': "read_input (Some f) v0 = Some (True, v', f')"
      by simp
    ultimately show ?thesis
      using read_input_lengths [OF r'] "1.IH" [OF r refl refl True]
      by (elim disjE) simp_all
  next
    case False
    then have "read_pairs f v0 = []"
      using r by (subst read_pairs.simps) simp
    with "1.prems" show ?thesis by simp
  qed
qed

lemma repeat_loop_events:
  "align_call v cfg = Some es \<Longrightarrow>
   repeat_loop rep n v cfg = Some (concat (replicate (nat (n - rep)) es))"
proof (induction rep n v cfg rule: repeat_loop.induct)
  case (1 rep n v cfg)
  show ?case
  proof (cases "rep < n")
    case True
    then have "nat (n - rep) = Suc (nat (n - (rep + 1)))"
      by simp
    then show ?thesis
      using True "1.IH" [OF True "1.prems"] "1.prems"
      by (subst repeat_loop.simps) simp
  next
    case False
    then show ?thesis by (subst repeat_loop.simps) simp
  qed
qed

lemma align_call_events:
  assumes "line1_length v = to_int a" "line2_length v = to_int b"
    and "line1_length v \<noteq> INT_MIN" "line2_length v \<noteq> INT_MIN"
  shows "align_call v cfg =
     Some [EdlibAlign (drop 1 (line1 v)) (line1_length v - 1)
             (drop 1 (line2 v)) (line2_length v - 1) cfg,
           EdlibFreeAlignResult]"
  using assms to_int_range [of a] to_int_range [of b]
  by (simp add: align_call_def c_int_def)

lemma align_loop_events:
  "\<forall>v \<in> set (read_pairs f v0). line1_length v \<noteq> INT_MIN \<and> line2_length v \<noteq> INT_MIN \<Longrightarrow>
   align_loop (Some f) v0 n cfg = Some (concat (map (pair_events n cfg) (read_pairs f v0)))"
proof (induction f v0 rule: read_pairs.induct)
  case (1 f v0)
  obtain ok v' f' where r: "read_input (Some f) v0 = Some (ok, v', f')"
    using read_input_Some by blast
  show ?case
  proof (cases ok)
    case True
    have rp: "read_pairs f v0 = v' # read_pairs f' v'"
      using r True by (subst read_pairs.simps) simp
    have len: "line1_length v' = to_int (int (length (line1 v')))"
        "line2_length v' = to_int (int (length (line2 v')))"
      using read_input_lengths [of f v0 v' f'] r True by simp_all
    have ne: "line1_length v' \<noteq> INT_MIN" "line2_length v' \<noteq> INT_MIN"
      using "1.prems" rp by simp_all
    have rest: "align_loop (Some f') v' n cfg =
        Some (concat (map (pair_events n cfg) (read_pairs f' v')))"
      using "1.IH" [OF r refl refl True] "1.prems" rp by simp
    have rep: "repeat_loop 0 n v' cfg = Some (concat (replicate (nat n)
        [EdlibAlign (drop 1 (line1 v')) (line1_length v' - 1)
           (drop 1 (line2 v')) (line2_length v' - 1) cfg, EdlibFreeAlignResult]))"
      using repeat_loop_events [OF align_call_events [OF len ne], where rep = 0 and n = n and cfg = cfg]
      by simp
    show ?thesis
      using r True rp rest rep
      by (subst align_loop.simps) (simp add: pair_events_def)
  next
    case False
    then have "read_pairs f v0 = []"
      using r by (subst read_pairs.simps) simp
    then show ?thesis
      using r False by (subst align_loop.simps) simp
  qed
qed

lemma align_loop_null: "align_loop None v n cfg = None"
  by (subst align_loop.simps) (simp add: read_input_def)

lemma main_valid:
  assumes "getopt_loop initial_options opts = Some opt" and "options_valid opt"
  shows "main argv0 opts [path] fs =
     (case align_loop (fopen fs path) unset_pair (numRepeats opt) (config_of opt) of
        None \<Rightarrow> None
      | Some es \<Rightarrow>
          Some ([Stdout (''Using '' @ mode opt @ '' alignment mode.\<newline>''),
                 Stdout ''\<newline>Comparing queries to target...\<newline>'',
                 Clock] @ es @ [Clock, CpuTime], 0))"
  using assms(2) unfolding options_valid_def
  by (elim conjE insertE emptyE; simp add: main_def Let_def config_of_def assms(1))

lemma main_run:
  assumes "getopt_loop initial_options opts = Some opt" and "options_valid opt"
    and "fs path = Some bytes"
    and "\<forall>v \<in> set (read_pairs \<lparr>remaining = bytes, eof = False\<rparr> unset_pair).
           line1_length v \<noteq> INT_MIN \<and> line2_length v \<noteq> INT_MIN"
  shows "main argv0 opts [path] fs =
     Some (run_trace opt (read_pairs \<lparr>remaining = bytes, eof = False\<rparr> unset_pair), 0)"
  unfolding main_valid [OF assms(1,2)]
  using assms(3) align_loop_events [OF assms(4)]
  by (simp add: fopen_def run_trace_def)

lemma main_null:
  assumes "getopt_loop initial_options opts = Some opt" and "options_valid opt"
    and "fs path = None"
  shows "main argv0 opts [path] fs = None"
  unfolding main_valid [OF assms(1,2)]
  using assms(3) by (simp add: fopen_def align_loop_null)

subsection \<open>The paired-line reader\<close>

text \<open>
  Claim C6. For a stream made of the lines \<open>ls\<close> (each shorter than \<open>2 ^ 31\<close> bytes, all but
  perhaps the last ending with a newline), successive calls of \<open>read_input\<close> return the
  lines two by two, in order: \<open>length ls div 2\<close> pairs. With an odd number of lines the last
  line is in no pair. When the stream ends during the first read (no line left) or during
  the second (one line left), the call returns \<open>false\<close> and nothing else.
\<close>

theorem read_input_pairs:
  assumes "lines_ok ls" and "remaining f = concat ls"
  shows "map (\<lambda>v. (line1 v, line2 v)) (read_pairs f v) = pair_up ls \<and>
         length (read_pairs f v) = length ls div 2 \<and>
         (odd (length ls) \<longrightarrow>
            map (\<lambda>v. (line1 v, line2 v)) (read_pairs f v) = pair_up (butlast ls)) \<and>
         (length ls < 2 \<longrightarrow> (\<exists>v' f'. read_input (Some f) v = Some (False, v', f')))"
proof -
  have p: "map (\<lambda>v. (line1 v, line2 v)) (read_pairs f v) = pair_up ls"
    by (rule read_pairs_lines [OF assms])
  have n: "length (read_pairs f v) = length ls div 2"
    using arg_cong [OF p, of length] by (simp add: length_pair_up)
  have e: "\<exists>v' f'. read_input (Some f) v = Some (False, v', f')" if "length ls < 2"
  proof (cases ls)
    case Nil
    then show ?thesis using assms(2) read_input_no_line [of f v] by simp
  next
    case (Cons l rest)
    with that have "ls = [l]" by (cases rest) simp_all
    then show ?thesis
      using assms read_input_one_line [of l f v] by (simp add: lines_ok_def)
  qed
  show ?thesis
    using p n e pair_up_odd [of ls] by simp
qed

theorem read_input_pairs_witness:
  "lines_ok [''>ACGT\<newline>'', ''>ACGA\<newline>'', ''>TT\<newline>'', ''>TA\<newline>'', ''>GG''] \<and>
   map (\<lambda>v. (line1 v, line2 v))
     (read_pairs \<lparr>remaining = ''>ACGT\<newline>>ACGA\<newline>>TT\<newline>>TA\<newline>>GG'', eof = False\<rparr> unset_pair) =
     [(''>ACGT\<newline>'', ''>ACGA\<newline>''), (''>TT\<newline>'', ''>TA\<newline>'')] \<and>
   length (read_pairs \<lparr>remaining = ''>ACGT\<newline>>ACGA\<newline>>TT\<newline>>TA\<newline>>GG'', eof = False\<rparr> unset_pair) = 2"
proof -
  let ?ls = "[''>ACGT\<newline>'', ''>ACGA\<newline>'', ''>TT\<newline>'', ''>TA\<newline>'', ''>GG'']"
  let ?f = "\<lparr>remaining = ''>ACGT\<newline>>ACGA\<newline>>TT\<newline>>TA\<newline>>GG'', eof = False\<rparr>"
  have h1: "lines_ok ?ls"
    by (simp add: lines_ok_def is_line_def INT_MAX_def)
  have h2: "remaining ?f = concat ?ls"
    by simp
  from read_input_pairs [OF h1 h2, of unset_pair] h1 show ?thesis
    by simp
qed

subsection \<open>The option loop\<close>

lemma option_case_fields:
  assumes "option_case opt c a = Some opt'"
  shows "mode opt' = (if c = CHR ''m'' then a else mode opt) \<and>
         alignmentFormat opt' = (if c = CHR ''f'' then a else alignmentFormat opt) \<and>
         invalidOption opt' = (invalidOption opt \<or> c \<notin> set ''mnkfsplr'')"
  using assms
  by (auto simp: option_case_def strcpy16_def split: if_splits option.splits)

lemma getopt_loop_fields:
  "getopt_loop opt opts = Some opt' \<Longrightarrow>
     mode opt' = last (mode opt # map snd (filter (\<lambda>x. fst x = CHR ''m'') opts)) \<and>
     alignmentFormat opt' =
       last (alignmentFormat opt # map snd (filter (\<lambda>x. fst x = CHR ''f'') opts)) \<and>
     invalidOption opt' = (invalidOption opt \<or> (\<exists>x \<in> set opts. fst x \<notin> set ''mnkfsplr''))"
proof (induction opt opts rule: getopt_loop.induct)
  case (1 opt)
  then show ?case by simp
next
  case (2 opt c a rest)
  then obtain opt1 where o: "option_case opt c a = Some opt1"
    and r: "getopt_loop opt1 rest = Some opt'"
    by (auto split: option.splits)
  show ?case
    using "2.IH" [OF o r] option_case_fields [OF o]
    by auto
qed

lemma option_case_same:
  assumes "same_but_numBestSeqs a b"
  shows "rel_option same_but_numBestSeqs (option_case a c s) (option_case b c s)"
  using assms
  by (auto simp: option_case_def same_but_numBestSeqs_def split: option.splits)

lemma getopt_loop_same:
  "same_but_numBestSeqs a b \<Longrightarrow>
   rel_option same_but_numBestSeqs (getopt_loop a opts) (getopt_loop b opts)"
proof (induction a opts arbitrary: b rule: getopt_loop.induct)
  case (1 opt)
  then show ?case by simp
next
  case (2 opt c s rest)
  from option_case_same [OF "2.prems", of c s] show ?case
  proof (cases rule: option.rel_cases)
    case None
    then show ?thesis by simp
  next
    case (Some x y)
    then show ?thesis using "2.IH" [of x y] by simp
  qed
qed

lemma main_numBestSeqs_update:
  assumes "getopt_loop initial_options opts1 = Some (y\<lparr>numBestSeqs := n\<rparr>)"
    and "getopt_loop initial_options opts2 = Some y"
  shows "main argv0 opts1 operands fs = main argv0 opts2 operands fs"
  using assms by (simp add: main_def Let_def cong: option.case_cong)

lemma main_same:
  assumes "rel_option same_but_numBestSeqs (getopt_loop initial_options opts1)
             (getopt_loop initial_options opts2)"
  shows "main argv0 opts1 operands fs = main argv0 opts2 operands fs"
  using assms
proof (cases rule: option.rel_cases)
  case None
  then show ?thesis by (simp add: main_def)
next
  case (Some x y)
  from Some(3) have "x = y\<lparr>numBestSeqs := numBestSeqs x\<rparr>"
    by (cases x; cases y) (simp add: same_but_numBestSeqs_def)
  with Some(1) have "getopt_loop initial_options opts1 = Some (y\<lparr>numBestSeqs := numBestSeqs x\<rparr>)"
    by simp
  then show ?thesis
    using Some(2) by (rule main_numBestSeqs_update)
qed

text \<open>
  Claim C9 describes what the comment at \<open>numBestSeqs\<close> and the usage text promise; the
  program does not do it. \<open>numBestSeqs\<close> is set by \<open>-n\<close> and never read: a run with \<open>-n N\<close>
  is the run without it, and every pair of the input is aligned.
\<close>

theorem numBestSeqs_ignored:
  assumes "atoi s = Some n"
  shows "main argv0 ((CHR ''n'', s) # opts) operands fs = main argv0 opts operands fs"
proof -
  have "same_but_numBestSeqs (initial_options\<lparr>numBestSeqs := n\<rparr>) initial_options"
    by (simp add: same_but_numBestSeqs_def)
  then have "rel_option same_but_numBestSeqs
      (getopt_loop (initial_options\<lparr>numBestSeqs := n\<rparr>) opts) (getopt_loop initial_options opts)"
    by (rule getopt_loop_same)
  moreover have "getopt_loop initial_options ((CHR ''n'', s) # opts) =
      getopt_loop (initial_options\<lparr>numBestSeqs := n\<rparr>) opts"
    using assms by (simp add: option_case_def)
  ultimately show ?thesis
    by (intro main_same) simp
qed

theorem numBestSeqs_ignored_witness:
  "atoi ''1'' = Some 1 \<and>
   main ''aligner'' [(CHR ''n'', ''1'')] [''in.txt'']
     [''in.txt'' \<mapsto> ''>ACGT\<newline>>ACGA\<newline>>TT\<newline>>GGGG\<newline>''] =
   Some ([Stdout ''Using NW alignment mode.\<newline>'',
          Stdout ''\<newline>Comparing queries to target...\<newline>'',
          Clock,
          EdlibAlign ''ACGT\<newline>'' 5 ''ACGA\<newline>'' 5
            \<lparr>cfg_k = - 1, cfg_mode = EDLIB_MODE_NW, cfg_task = EDLIB_TASK_DISTANCE\<rparr>,
          EdlibFreeAlignResult,
          Free ''>ACGT\<newline>'', Free ''>ACGA\<newline>'',
          EdlibAlign ''TT\<newline>'' 3 ''GGGG\<newline>'' 5
            \<lparr>cfg_k = - 1, cfg_mode = EDLIB_MODE_NW, cfg_task = EDLIB_TASK_DISTANCE\<rparr>,
          EdlibFreeAlignResult,
          Free ''>TT\<newline>'', Free ''>GGGG\<newline>'',
          Clock, CpuTime], 0)"
proof -
  have a: "atoi ''1'' = Some 1"
    by code_simp
  have m: "main ''aligner'' [] [''in.txt'']
     [''in.txt'' \<mapsto> ''>ACGT\<newline>>ACGA\<newline>>TT\<newline>>GGGG\<newline>''] =
   Some ([Stdout ''Using NW alignment mode.\<newline>'',
          Stdout ''\<newline>Comparing queries to target...\<newline>'',
          Clock,
          EdlibAlign ''ACGT\<newline>'' 5 ''ACGA\<newline>'' 5
            \<lparr>cfg_k = - 1, cfg_mode = EDLIB_MODE_NW, cfg_task = EDLIB_TASK_DISTANCE\<rparr>,
          EdlibFreeAlignResult,
          Free ''>ACGT\<newline>'', Free ''>ACGA\<newline>'',
          EdlibAlign ''TT\<newline>'' 3 ''GGGG\<newline>'' 5
            \<lparr>cfg_k = - 1, cfg_mode = EDLIB_MODE_NW, cfg_task = EDLIB_TASK_DISTANCE\<rparr>,
          EdlibFreeAlignResult,
          Free ''>TT\<newline>'', Free ''>GGGG\<newline>'',
          Clock, CpuTime], 0)"
    by code_simp
  show ?thesis
    unfolding numBestSeqs_ignored [OF a] using a m by simp
qed


subsection \<open>The driver\<close>

text \<open>
  Claim C2 describes what the driver should do; the program does not do it. The result of
  \<open>fopen\<close> is never tested (\<open>readFastaSequences\<close> does test it): with options that pass
  the checks and a path that cannot be opened, \<open>read_input\<close> calls \<open>getline\<close> on the null
  stream, and the run is undefined. No fatal error is reported and no exit code is set.
\<close>

theorem main_unopened_file:
  assumes "getopt_loop initial_options opts = Some opt" and "options_valid opt"
    and "fs path = None"
  shows "main argv0 opts [path] fs = None"
  using assms by (rule main_null)

theorem main_unopened_file_witness:
  "getopt_loop initial_options [] = Some initial_options \<and> options_valid initial_options \<and>
   main ''aligner'' [] [''missing.txt''] Map.empty = None"
proof -
  have g: "getopt_loop initial_options [] = Some initial_options"
    by simp
  have v: "options_valid initial_options"
    by (simp add: options_valid_def initial_options_def)
  have n: "Map.empty ''missing.txt'' = (None :: char list option)"
    by simp
  from main_unopened_file [where fs = Map.empty and path = "''missing.txt''", OF g v n,
      of "''aligner''"] g v show ?thesis
    by simp
qed

lemma CpuTime_pair_events: "CpuTime \<notin> set (pair_events n cfg v)"
  by (auto simp: pair_events_def)

lemma count_CpuTime_pairs:
  "count_list (concat (map (pair_events n cfg) vs)) CpuTime = 0"
  using CpuTime_pair_events by (simp add: count_list_0_iff)

lemma count_CpuTime_run_trace: "count_list (run_trace opt vs) CpuTime = 1"
  by (simp add: run_trace_def count_CpuTime_pairs)

text \<open>
  Claim C3. With options that pass the checks and an input file that opens, the trace of
  the run is the two banner lines and the first reading of the clock; then, for every pair
  that \<open>read_input\<close> returns, \<open>numRepeats\<close> times the same call of the engine (the two
  lines without their first byte, lengths one less than the lines') each followed at once
  by the release of its result, and the release of the two buffers; then the second reading
  of the clock and the report of the CPU time, which occurs once in the trace. The exit
  code is 0. (A line length of \<open>INT_MIN\<close>, which only a line of \<open>2 ^ 31\<close> bytes or more can
  give, would make \<open>queryLength - 1\<close> overflow.)
\<close>

theorem main_engine_calls:
  assumes "getopt_loop initial_options opts = Some opt" and "options_valid opt"
    and "fs path = Some bytes"
    and "\<forall>v \<in> set (read_pairs \<lparr>remaining = bytes, eof = False\<rparr> unset_pair).
           line1_length v \<noteq> INT_MIN \<and> line2_length v \<noteq> INT_MIN"
  shows "main argv0 opts [path] fs =
           Some (run_trace opt (read_pairs \<lparr>remaining = bytes, eof = False\<rparr> unset_pair), 0) \<and>
         count_list (run_trace opt (read_pairs \<lparr>remaining = bytes, eof = False\<rparr> unset_pair))
           CpuTime = 1"
  using main_run [where fs = fs and path = path, OF assms] count_CpuTime_run_trace by simp

theorem main_engine_calls_witness:
  "main ''aligner'' [(CHR ''r'', ''5'')] [''in.txt''] [''in.txt'' \<mapsto> ''>ACGT\<newline>>ACGA\<newline>''] =
     Some ([Stdout ''Using NW alignment mode.\<newline>'',
            Stdout ''\<newline>Comparing queries to target...\<newline>'',
            Clock]
           @ concat (replicate 5
               [EdlibAlign ''ACGT\<newline>'' 5 ''ACGA\<newline>'' 5
                  \<lparr>cfg_k = - 1, cfg_mode = EDLIB_MODE_NW, cfg_task = EDLIB_TASK_DISTANCE\<rparr>,
                EdlibFreeAlignResult])
           @ [Free ''>ACGT\<newline>'', Free ''>ACGA\<newline>'', Clock, CpuTime], 0) \<and>
   count_list (run_trace (initial_options\<lparr>numRepeats := 5\<rparr>)
       [\<lparr>line1 = ''>ACGT\<newline>'', line2 = ''>ACGA\<newline>'', line1_length = 6, line2_length = 6\<rparr>])
     CpuTime = 1"
proof -
  let ?opt = "initial_options\<lparr>numRepeats := 5\<rparr>"
  let ?bytes = "''>ACGT\<newline>>ACGA\<newline>''"
  let ?v = "\<lparr>line1 = ''>ACGT\<newline>'', line2 = ''>ACGA\<newline>'', line1_length = 6, line2_length = 6\<rparr>"
  have g: "getopt_loop initial_options [(CHR ''r'', ''5'')] = Some ?opt"
    by code_simp
  have v: "options_valid ?opt"
    by (simp add: options_valid_def initial_options_def)
  have f: "[''in.txt'' \<mapsto> ?bytes] ''in.txt'' = Some ?bytes"
    by simp
  have p: "read_pairs \<lparr>remaining = ?bytes, eof = False\<rparr> unset_pair = [?v]"
    by code_simp
  have l: "\<forall>v \<in> set (read_pairs \<lparr>remaining = ?bytes, eof = False\<rparr> unset_pair).
      line1_length v \<noteq> INT_MIN \<and> line2_length v \<noteq> INT_MIN"
    unfolding p by (simp add: INT_MIN_def)
  have t: "run_trace ?opt [?v] =
     [Stdout ''Using NW alignment mode.\<newline>'',
      Stdout ''\<newline>Comparing queries to target...\<newline>'',
      Clock]
     @ concat (replicate 5
         [EdlibAlign ''ACGT\<newline>'' 5 ''ACGA\<newline>'' 5
            \<lparr>cfg_k = - 1, cfg_mode = EDLIB_MODE_NW, cfg_task = EDLIB_TASK_DISTANCE\<rparr>,
          EdlibFreeAlignResult])
     @ [Free ''>ACGT\<newline>'', Free ''>ACGA\<newline>'', Clock, CpuTime]"
    by (simp add: run_trace_def pair_events_def config_of_def initial_options_def
          eval_nat_numeral)
  from main_engine_calls [where fs = "[''in.txt'' \<mapsto> ?bytes]" and path = "''in.txt''",
      OF g v f l, of "''aligner''"] show ?thesis
    unfolding p t by simp
qed

text \<open>
  Claim C8 fails as stated in its last part: with two operands \<open>optind + 1 != argc\<close> holds,
  and the program prints the usage text and returns 1, whatever the files hold.
\<close>

theorem main_rejects_counterexample:
  "main ''aligner'' [] [''queries.fasta'', ''target.fasta'']
     [''queries.fasta'' \<mapsto> ''>ACGT\<newline>>ACGA\<newline>'', ''target.fasta'' \<mapsto> ''>ACGT\<newline>>ACGA\<newline>''] =
   Some ([Usage ''aligner''], 1)"
  by code_simp

text \<open>
  Claim C8, amended. When the option loop ends without undefined behaviour (every \<open>-m\<close> and
  \<open>-f\<close> argument is shorter than 16 bytes, every number fits an \<open>int\<close>), the program
  returns 1 with nothing but the usage text when the number of operands is not one (none, or
  a second path) or \<open>getopt\<close> reported an option outside \<open>m n k f s p l r\<close>; otherwise it
  returns 1 with nothing but a message when the format, which is the argument of the last
  \<open>-f\<close>, is none of NICE, CIG_STD, CIG_EXT, and otherwise when the mode, which is the argument
  of the last \<open>-m\<close>, is none of SHW, HW, NW. No file is opened and the engine is not called.
\<close>

theorem main_rejects:
  assumes "getopt_loop initial_options opts = Some opt"
  shows "(length operands \<noteq> 1 \<or> invalidOption opt \<longrightarrow>
            main argv0 opts operands fs = Some ([Usage argv0], 1)) \<and>
         (length operands = 1 \<and> \<not> invalidOption opt \<and>
          alignmentFormat opt \<notin> {''NICE'', ''CIG_STD'', ''CIG_EXT''} \<longrightarrow>
            main argv0 opts operands fs =
              Some ([Stdout ''Invalid alignment path format (-f)!\<newline>''], 1)) \<and>
         (length operands = 1 \<and> \<not> invalidOption opt \<and>
          alignmentFormat opt \<in> {''NICE'', ''CIG_STD'', ''CIG_EXT''} \<and>
          mode opt \<notin> {''SHW'', ''HW'', ''NW''} \<longrightarrow>
            main argv0 opts operands fs = Some ([Stdout ''Invalid mode (-m)!\<newline>''], 1)) \<and>
         invalidOption opt = (\<exists>x \<in> set opts. fst x \<notin> set ''mnkfsplr'') \<and>
         alignmentFormat opt = last (''NICE'' # map snd (filter (\<lambda>x. fst x = CHR ''f'') opts)) \<and>
         mode opt = last (''NW'' # map snd (filter (\<lambda>x. fst x = CHR ''m'') opts))"
proof -
  have 1: "length operands \<noteq> 1 \<or> invalidOption opt \<Longrightarrow>
      main argv0 opts operands fs = Some ([Usage argv0], 1)"
    using assms by (auto simp: main_def)
  have 2: "length operands = 1 \<and> \<not> invalidOption opt \<and>
      alignmentFormat opt \<notin> {''NICE'', ''CIG_STD'', ''CIG_EXT''} \<Longrightarrow>
      main argv0 opts operands fs =
        Some ([Stdout ''Invalid alignment path format (-f)!\<newline>''], 1)"
    using assms by (simp add: main_def)
  have 3: "length operands = 1 \<and> \<not> invalidOption opt \<and>
      alignmentFormat opt \<in> {''NICE'', ''CIG_STD'', ''CIG_EXT''} \<and>
      mode opt \<notin> {''SHW'', ''HW'', ''NW''} \<Longrightarrow>
      main argv0 opts operands fs = Some ([Stdout ''Invalid mode (-m)!\<newline>''], 1)"
    using assms by (auto simp: main_def)
  have 4: "invalidOption opt = (\<exists>x \<in> set opts. fst x \<notin> set ''mnkfsplr'')"
      "alignmentFormat opt = last (''NICE'' # map snd (filter (\<lambda>x. fst x = CHR ''f'') opts))"
      "mode opt = last (''NW'' # map snd (filter (\<lambda>x. fst x = CHR ''m'') opts))"
    using getopt_loop_fields [OF assms] by (simp_all add: initial_options_def)
  show ?thesis
    using 1 2 3 4 by blast
qed

theorem main_rejects_witness:
  "main ''aligner'' [(CHR ''m'', ''GLOBAL'')] [''in.txt''] [''in.txt'' \<mapsto> ''>ACGT\<newline>>ACGA\<newline>''] =
     Some ([Stdout ''Invalid mode (-m)!\<newline>''], 1) \<and>
   main ''aligner'' [(CHR ''f'', ''SAM'')] [''in.txt''] [''in.txt'' \<mapsto> ''>ACGT\<newline>>ACGA\<newline>''] =
     Some ([Stdout ''Invalid alignment path format (-f)!\<newline>''], 1) \<and>
   main ''aligner'' [(CHR ''?'', [])] [''in.txt''] [''in.txt'' \<mapsto> ''>ACGT\<newline>>ACGA\<newline>''] =
     Some ([Usage ''aligner''], 1) \<and>
   main ''aligner'' [] [] [''in.txt'' \<mapsto> ''>ACGT\<newline>>ACGA\<newline>''] =
     Some ([Usage ''aligner''], 1)"
proof -
  let ?fs = "[''in.txt'' \<mapsto> ''>ACGT\<newline>>ACGA\<newline>'']"
  have m: "getopt_loop initial_options [(CHR ''m'', ''GLOBAL'')] =
      Some (initial_options\<lparr>mode := ''GLOBAL''\<rparr>)"
    by code_simp
  have f: "getopt_loop initial_options [(CHR ''f'', ''SAM'')] =
      Some (initial_options\<lparr>alignmentFormat := ''SAM''\<rparr>)"
    by code_simp
  have q: "getopt_loop initial_options [(CHR ''?'', [])] =
      Some (initial_options\<lparr>invalidOption := True\<rparr>)"
    by code_simp
  have n: "getopt_loop initial_options [] = Some initial_options"
    by simp
  show ?thesis
    using main_rejects [OF m, of "[''in.txt'']" "''aligner''" ?fs]
      main_rejects [OF f, of "[''in.txt'']" "''aligner''" ?fs]
      main_rejects [OF q, of "[''in.txt'']" "''aligner''" ?fs]
      main_rejects [OF n, of "[]" "''aligner''" ?fs]
    by (simp add: initial_options_def)
qed

lemma engine_view_line:
  assumes "2 \<le> length l" and "int (length l) \<le> INT_MAX" and "last l = LF"
  shows "engine_view (drop 1 l) (to_int (int (length l)) - 1) = tl l \<and>
         tl l \<noteq> [] \<and> last (tl l) = LF"
proof -
  have "to_int (int (length l)) = int (length l)"
    using assms(2) by (simp add: to_int_id)
  moreover obtain c cs where "l = c # cs" "cs \<noteq> []"
    using assms(1) by (cases l; cases "tl l") auto
  ultimately show ?thesis
    using assms(3) by (simp add: engine_view_def drop_Suc)
qed

lemma align_in_pair_events:
  "0 < n \<Longrightarrow>
   EdlibAlign (drop 1 (line1 v)) (line1_length v - 1) (drop 1 (line2 v)) (line2_length v - 1) cfg
     \<in> set (pair_events n cfg v)"
  by (cases "nat n") (auto simp: pair_events_def)

text \<open>
  Claim C10 fails as stated for a line that is a newline and nothing else: its first byte,
  which the driver strips, is the newline, and the engine is given the empty sequence.
\<close>

theorem engine_sees_newline_counterexample:
  "main ''aligner'' [] [''in.txt''] [''in.txt'' \<mapsto> ''>ACGT\<newline>\<newline>''] =
     Some ([Stdout ''Using NW alignment mode.\<newline>'',
            Stdout ''\<newline>Comparing queries to target...\<newline>'',
            Clock,
            EdlibAlign ''ACGT\<newline>'' 5 [] 0
              \<lparr>cfg_k = - 1, cfg_mode = EDLIB_MODE_NW, cfg_task = EDLIB_TASK_DISTANCE\<rparr>,
            EdlibFreeAlignResult,
            Free ''>ACGT\<newline>'', Free ''\<newline>'',
            Clock, CpuTime], 0) \<and>
   engine_view [] 0 = []"
  by code_simp

text \<open>
  Claim C10, amended. In a run that reaches the computation with \<open>numRepeats\<close> at least 1,
  every pair that \<open>read_input\<close> returns is passed to the engine as the two lines without
  their first byte, with lengths one less than the lines'. For a line of at least two bytes
  (and fewer than \<open>2 ^ 31\<close>) that ends with a newline, the sequence the engine reads is the
  line without its first byte: it is not empty and its last byte is that newline.
\<close>

theorem engine_sees_newline:
  assumes "getopt_loop initial_options opts = Some opt" and "options_valid opt"
    and "fs path = Some bytes"
    and "\<forall>v \<in> set (read_pairs \<lparr>remaining = bytes, eof = False\<rparr> unset_pair).
           line1_length v \<noteq> INT_MIN \<and> line2_length v \<noteq> INT_MIN"
    and "0 < numRepeats opt"
    and "v \<in> set (read_pairs \<lparr>remaining = bytes, eof = False\<rparr> unset_pair)"
  shows "\<exists>trace. main argv0 opts [path] fs = Some (trace, 0) \<and>
           EdlibAlign (drop 1 (line1 v)) (line1_length v - 1)
             (drop 1 (line2 v)) (line2_length v - 1) (config_of opt) \<in> set trace \<and>
           (2 \<le> length (line1 v) \<and> int (length (line1 v)) \<le> INT_MAX \<and> last (line1 v) = LF \<longrightarrow>
              engine_view (drop 1 (line1 v)) (line1_length v - 1) = tl (line1 v) \<and>
              tl (line1 v) \<noteq> [] \<and> last (tl (line1 v)) = LF) \<and>
           (2 \<le> length (line2 v) \<and> int (length (line2 v)) \<le> INT_MAX \<and> last (line2 v) = LF \<longrightarrow>
              engine_view (drop 1 (line2 v)) (line2_length v - 1) = tl (line2 v) \<and>
              tl (line2 v) \<noteq> [] \<and> last (tl (line2 v)) = LF)"
proof -
  let ?vs = "read_pairs \<lparr>remaining = bytes, eof = False\<rparr> unset_pair"
  have m: "main argv0 opts [path] fs = Some (run_trace opt ?vs, 0)"
    by (rule main_run [where fs = fs and path = path, OF assms(1-4)])
  have "EdlibAlign (drop 1 (line1 v)) (line1_length v - 1)
      (drop 1 (line2 v)) (line2_length v - 1) (config_of opt)
        \<in> set (pair_events (numRepeats opt) (config_of opt) v)"
    by (rule align_in_pair_events [OF assms(5)])
  then have a: "EdlibAlign (drop 1 (line1 v)) (line1_length v - 1)
      (drop 1 (line2 v)) (line2_length v - 1) (config_of opt) \<in> set (run_trace opt ?vs)"
    using assms(6) by (auto simp: run_trace_def)
  have len: "line1_length v = to_int (int (length (line1 v)))"
      "line2_length v = to_int (int (length (line2 v)))"
    using read_pairs_lengths [OF assms(6)] by simp_all
  show ?thesis
    using m a engine_view_line [of "line1 v"] engine_view_line [of "line2 v"]
    unfolding len by blast
qed

theorem engine_sees_newline_witness:
  "main ''aligner'' [] [''in.txt''] [''in.txt'' \<mapsto> ''>ACGT\<newline>>ACGA\<newline>''] =
     Some ([Stdout ''Using NW alignment mode.\<newline>'',
            Stdout ''\<newline>Comparing queries to target...\<newline>'',
            Clock,
            EdlibAlign ''ACGT\<newline>'' 5 ''ACGA\<newline>'' 5
              \<lparr>cfg_k = - 1, cfg_mode = EDLIB_MODE_NW, cfg_task = EDLIB_TASK_DISTANCE\<rparr>,
            EdlibFreeAlignResult,
            Free ''>ACGT\<newline>'', Free ''>ACGA\<newline>'',
            Clock, CpuTime], 0) \<and>
   engine_view ''ACGT\<newline>'' 5 = ''ACGT\<newline>'' \<and> last ''ACGT\<newline>'' = LF \<and>
   engine_view ''ACGA\<newline>'' 5 = ''ACGA\<newline>'' \<and> last ''ACGA\<newline>'' = LF"
proof -
  let ?bytes = "''>ACGT\<newline>>ACGA\<newline>''"
  let ?v = "\<lparr>line1 = ''>ACGT\<newline>'', line2 = ''>ACGA\<newline>'', line1_length = 6, line2_length = 6\<rparr>"
  have g: "getopt_loop initial_options [] = Some initial_options"
    by simp
  have v: "options_valid initial_options"
    by (simp add: options_valid_def initial_options_def)
  have f: "[''in.txt'' \<mapsto> ?bytes] ''in.txt'' = Some ?bytes"
    by simp
  have p: "read_pairs \<lparr>remaining = ?bytes, eof = False\<rparr> unset_pair = [?v]"
    by code_simp
  have l: "\<forall>v \<in> set (read_pairs \<lparr>remaining = ?bytes, eof = False\<rparr> unset_pair).
      line1_length v \<noteq> INT_MIN \<and> line2_length v \<noteq> INT_MIN"
    unfolding p by (simp add: INT_MIN_def)
  have r: "0 < numRepeats initial_options"
    by (simp add: initial_options_def)
  have i: "?v \<in> set (read_pairs \<lparr>remaining = ?bytes, eof = False\<rparr> unset_pair)"
    unfolding p by simp
  have e: "main ''aligner'' [] [''in.txt''] [''in.txt'' \<mapsto> ?bytes] =
     Some ([Stdout ''Using NW alignment mode.\<newline>'',
            Stdout ''\<newline>Comparing queries to target...\<newline>'',
            Clock,
            EdlibAlign ''ACGT\<newline>'' 5 ''ACGA\<newline>'' 5
              \<lparr>cfg_k = - 1, cfg_mode = EDLIB_MODE_NW, cfg_task = EDLIB_TASK_DISTANCE\<rparr>,
            EdlibFreeAlignResult,
            Free ''>ACGT\<newline>'', Free ''>ACGA\<newline>'',
            Clock, CpuTime], 0)"
    by code_simp
  from engine_sees_newline [where fs = "[''in.txt'' \<mapsto> ?bytes]" and path = "''in.txt''",
      OF g v f l r i, of "''aligner''"] e show ?thesis
    by (simp add: INT_MAX_def)
qed

section \<open>Properties of printAlignment\<close>

lemma consumed_Nil: "consumed gap [] = 0"
  by (simp add: consumed_def)

lemma consumed_Cons: "consumed gap (a # ops) = (if a = gap then 0 else 1) + consumed gap ops"
  by (simp add: consumed_def)

lemma consumed_append: "consumed gap (xs @ ys) = consumed gap xs + consumed gap ys"
  by (simp add: consumed_def)

lemma consumed_nonneg: "0 \<le> consumed gap ops"
  by (simp add: consumed_def)

lemma consumed_le_length: "consumed gap ops \<le> int (length ops)"
  by (simp add: consumed_def)

lemma c_int_Some: "INT_MIN \<le> v \<Longrightarrow> v \<le> INT_MAX \<Longrightarrow> c_int v = Some v"
  by (simp add: c_int_def)

lemma at_Some: "0 \<le> i \<Longrightarrow> i < int (length xs) \<Longrightarrow> at xs i = Some (xs ! nat i)"
  by (simp add: at_def)

lemma drop_nat_Cons:
  assumes "drop (nat j) xs = a # w" and "0 \<le> j"
  shows "at xs j = Some a \<and> drop (nat (j + 1)) xs = w \<and> j < int (length xs)"
proof -
  have lt: "nat j < length xs"
    using assms(1) by (cases "nat j < length xs") auto
  have "drop (nat j) xs = xs ! nat j # drop (Suc (nat j)) xs"
    using lt by (simp add: Cons_nth_drop_Suc)
  with assms(1) have "xs ! nat j = a" "drop (Suc (nat j)) xs = w"
    by simp_all
  moreover have "nat (j + 1) = Suc (nat j)"
    using assms(2) by simp
  ultimately show ?thesis
    using lt assms(2) by (simp add: at_def)
qed

lemma hw_loop_offset:
  assumes "drop (nat i) alignment = w" and "0 \<le> i"
    and "INT_MIN \<le> tIdx - consumed EDLIB_EDOP_INSERT w" and "tIdx \<le> INT_MAX"
  shows "hw_loop alignment (int (length alignment)) i tIdx =
           Some (tIdx - consumed EDLIB_EDOP_INSERT w)"
  using assms
proof (induction w arbitrary: i tIdx)
  case Nil
  then have "\<not> i < int (length alignment)"
    by simp
  then show ?case
    by (subst hw_loop.simps) (simp add: consumed_Nil)
next
  case (Cons a w)
  from drop_nat_Cons [OF Cons.prems(1,2)]
  have a: "at alignment i = Some a" and d: "drop (nat (i + 1)) alignment = w"
    and lt: "i < int (length alignment)"
    by simp_all
  show ?case
  proof (cases "a = EDLIB_EDOP_INSERT")
    case True
    have "hw_loop alignment (int (length alignment)) (i + 1) tIdx =
        Some (tIdx - consumed EDLIB_EDOP_INSERT w)"
      using Cons.prems True by (intro Cons.IH [OF d]) (simp_all add: consumed_Cons)
    then show ?thesis
      using a lt True by (subst hw_loop.simps) (simp add: consumed_Cons)
  next
    case False
    have c: "c_int (tIdx - 1) = Some (tIdx - 1)"
      using Cons.prems False consumed_nonneg [of EDLIB_EDOP_INSERT w]
      by (intro c_int_Some) (simp_all add: consumed_Cons)
    have "hw_loop alignment (int (length alignment)) (i + 1) (tIdx - 1) =
        Some (tIdx - 1 - consumed EDLIB_EDOP_INSERT w)"
      using Cons.prems False by (intro Cons.IH [OF d]) (simp_all add: consumed_Cons)
    then show ?thesis
      using a lt False c by (subst hw_loop.simps) (simp add: consumed_Cons)
  qed
qed


lemma window_end:
  assumes "0 \<le> start"
  shows "length (take (nat (min (start + 50) (int (length alignment)))) alignment) =
           nat (min (start + 50) (int (length alignment)))"
proof -
  have "nat (min (start + 50) (int (length alignment))) \<le> length alignment"
    by (simp add: nat_le_iff)
  then show ?thesis by simp
qed

lemma window_exit:
  assumes "drop (nat j) (take (nat (min (start + 50) (int (length alignment)))) alignment) = []"
    and "0 \<le> start" and "start \<le> j"
  shows "\<not> (j < start + 50 \<and> j < int (length alignment))"
proof -
  have "length (take (nat (min (start + 50) (int (length alignment)))) alignment) \<le> nat j"
    using assms(1) by simp
  then have "nat (min (start + 50) (int (length alignment))) \<le> nat j"
    by (simp only: window_end [OF assms(2)])
  then have "min (start + 50) (int (length alignment)) \<le> j"
    using assms(2,3) by (simp add: nat_le_iff)
  then show ?thesis
    by (simp add: min_le_iff_disj not_less conj_disj_distribL)
qed

lemma window_step:
  assumes "drop (nat j) (take (nat (min (start + 50) (int (length alignment)))) alignment) = a # w"
    and "0 \<le> start" and "start \<le> j"
  shows "j < start + 50 \<and> j < int (length alignment) \<and> at alignment j = Some a \<and>
         drop (nat (j + 1)) (take (nat (min (start + 50) (int (length alignment)))) alignment) = w"
proof -
  let ?e = "min (start + 50) (int (length alignment))"
  let ?w = "take (nat ?e) alignment"
  have j: "0 \<le> j" using assms(2,3) by simp
  from drop_nat_Cons [OF assms(1) j]
  have a: "at ?w j = Some a" and d: "drop (nat (j + 1)) ?w = w" and lt: "j < int (length ?w)"
    by simp_all
  from lt have "j < int (nat ?e)"
    by (simp only: window_end [OF assms(2)])
  then have je: "j < ?e"
    using assms(2) by simp
  then have lt': "j < start + 50" "j < int (length alignment)"
    by simp_all
  have "nat j < nat ?e"
    using je j by arith
  then have "?w ! nat j = alignment ! nat j"
    by (rule nth_take)
  moreover have "?w ! nat j = a"
    using a lt j unfolding at_def by (simp del: length_take)
  ultimately have "at alignment j = Some a"
    using lt' j by (simp add: at_def)
  then show ?thesis
    using lt' d by simp
qed

lemma target_loop_line:
  assumes "drop (nat j) (take (nat (min (start + 50) (int (length alignment)))) alignment) = w"
    and "0 \<le> start" and "start \<le> j" and "start + 50 \<le> INT_MAX"
    and "- 1 \<le> tIdx" and "tIdx + consumed EDLIB_EDOP_INSERT w < int (length target)"
    and "tIdx + consumed EDLIB_EDOP_INSERT w \<le> INT_MAX"
  shows "target_loop target alignment (int (length alignment)) start j tIdx s =
           Some (sequence_line EDLIB_EDOP_INSERT target tIdx w,
                 tIdx + consumed EDLIB_EDOP_INSERT w,
                 if j = start \<and> w \<noteq> [] then tIdx + consumed EDLIB_EDOP_INSERT (take 1 w) else s)"
  using assms
proof (induction w arbitrary: j tIdx s)
  case Nil
  have lim: "c_int (start + 50) = Some (start + 50)"
    using Nil.prems by (intro c_int_Some) (simp_all add: INT_MIN_def)
  have ne: "\<not> (j < start + 50 \<and> j < int (length alignment))"
    by (rule window_exit [OF Nil.prems(1,2,3)])
  show ?case
    by (subst target_loop.simps, simp only: lim option.case if_not_P [OF ne]) (simp add: consumed_Nil)
next
  case (Cons a w)
  have lim: "c_int (start + 50) = Some (start + 50)"
    using Cons.prems by (intro c_int_Some) (simp_all add: INT_MIN_def)
  from window_step [OF Cons.prems(1,2,3)]
  have cond: "j < start + 50 \<and> j < int (length alignment)" and a: "at alignment j = Some a"
    and d: "drop (nat (j + 1)) (take (nat (min (start + 50) (int (length alignment)))) alignment) = w"
    by simp_all
  have j1: "start \<le> j + 1" "j + 1 \<noteq> start"
    using Cons.prems(3) by simp_all
  show ?case
  proof (cases "a = EDLIB_EDOP_INSERT")
    case True
    have "target_loop target alignment (int (length alignment)) start (j + 1) tIdx
        (if j = start then tIdx else s) =
      Some (sequence_line EDLIB_EDOP_INSERT target tIdx w, tIdx + consumed EDLIB_EDOP_INSERT w,
            if j = start then tIdx else s)"
      using Cons.IH [OF d Cons.prems(2) j1(1) Cons.prems(4,5), of "if j = start then tIdx else s"]
        Cons.prems(6,7) True j1(2)
      by (simp add: consumed_Cons)
    then show ?thesis
      using lim cond a True
      by (subst target_loop.simps) (simp add: consumed_Cons consumed_Nil)
  next
    case False
    have c: "c_int (tIdx + 1) = Some (tIdx + 1)"
      using Cons.prems False consumed_nonneg [of EDLIB_EDOP_INSERT w]
      by (intro c_int_Some) (simp_all add: consumed_Cons INT_MIN_def)
    have t: "at target (tIdx + 1) = Some (target ! nat (tIdx + 1))"
      using Cons.prems False consumed_nonneg [of EDLIB_EDOP_INSERT w]
      by (intro at_Some) (simp_all add: consumed_Cons)
    have "target_loop target alignment (int (length alignment)) start (j + 1) (tIdx + 1)
        (if j = start then tIdx + 1 else s) =
      Some (sequence_line EDLIB_EDOP_INSERT target (tIdx + 1) w,
            tIdx + 1 + consumed EDLIB_EDOP_INSERT w,
            if j = start then tIdx + 1 else s)"
      using Cons.IH [OF d Cons.prems(2) j1(1) Cons.prems(4),
          of "tIdx + 1" "if j = start then tIdx + 1 else s"]
        Cons.prems(5,6,7) False j1(2)
      by (simp add: consumed_Cons)
    then show ?thesis
      using lim cond a False c t
      by (subst target_loop.simps) (simp add: consumed_Cons consumed_Nil)
  qed
qed

lemma query_loop_line:
  assumes "drop (nat j) (take (nat (min (start + 50) (int (length alignment)))) alignment) = w"
    and "0 \<le> start" and "start \<le> j" and "start + 50 \<le> INT_MAX"
    and "- 1 \<le> qIdx" and "qIdx + consumed EDLIB_EDOP_DELETE w < int (length query)"
    and "qIdx + consumed EDLIB_EDOP_DELETE w \<le> INT_MAX"
  shows "query_loop query alignment (int (length alignment)) start j qIdx s =
           Some (sequence_line EDLIB_EDOP_DELETE query qIdx w,
                 qIdx + consumed EDLIB_EDOP_DELETE w,
                 if j = start \<and> w \<noteq> [] then qIdx + consumed EDLIB_EDOP_DELETE (take 1 w) else s)"
  using assms
proof (induction w arbitrary: j qIdx s)
  case Nil
  have lim: "c_int (start + 50) = Some (start + 50)"
    using Nil.prems by (intro c_int_Some) (simp_all add: INT_MIN_def)
  have ne: "\<not> (j < start + 50 \<and> j < int (length alignment))"
    by (rule window_exit [OF Nil.prems(1,2,3)])
  show ?case
    by (subst query_loop.simps, simp only: lim option.case if_not_P [OF ne]) (simp add: consumed_Nil)
next
  case (Cons a w)
  have lim: "c_int (start + 50) = Some (start + 50)"
    using Cons.prems by (intro c_int_Some) (simp_all add: INT_MIN_def)
  from window_step [OF Cons.prems(1,2,3)]
  have cond: "j < start + 50 \<and> j < int (length alignment)" and a: "at alignment j = Some a"
    and d: "drop (nat (j + 1)) (take (nat (min (start + 50) (int (length alignment)))) alignment) = w"
    by simp_all
  have j1: "start \<le> j + 1" "j + 1 \<noteq> start"
    using Cons.prems(3) by simp_all
  show ?case
  proof (cases "a = EDLIB_EDOP_DELETE")
    case True
    have "query_loop query alignment (int (length alignment)) start (j + 1) qIdx
        (if j = start then qIdx else s) =
      Some (sequence_line EDLIB_EDOP_DELETE query qIdx w, qIdx + consumed EDLIB_EDOP_DELETE w,
            if j = start then qIdx else s)"
      using Cons.IH [OF d Cons.prems(2) j1(1) Cons.prems(4,5), of "if j = start then qIdx else s"]
        Cons.prems(6,7) True j1(2)
      by (simp add: consumed_Cons)
    then show ?thesis
      using lim cond a True
      by (subst query_loop.simps) (simp add: consumed_Cons consumed_Nil)
  next
    case False
    have c: "c_int (qIdx + 1) = Some (qIdx + 1)"
      using Cons.prems False consumed_nonneg [of EDLIB_EDOP_DELETE w]
      by (intro c_int_Some) (simp_all add: consumed_Cons INT_MIN_def)
    have t: "at query (qIdx + 1) = Some (query ! nat (qIdx + 1))"
      using Cons.prems False consumed_nonneg [of EDLIB_EDOP_DELETE w]
      by (intro at_Some) (simp_all add: consumed_Cons)
    have "query_loop query alignment (int (length alignment)) start (j + 1) (qIdx + 1)
        (if j = start then qIdx + 1 else s) =
      Some (sequence_line EDLIB_EDOP_DELETE query (qIdx + 1) w,
            qIdx + 1 + consumed EDLIB_EDOP_DELETE w,
            if j = start then qIdx + 1 else s)"
      using Cons.IH [OF d Cons.prems(2) j1(1) Cons.prems(4),
          of "qIdx + 1" "if j = start then qIdx + 1 else s"]
        Cons.prems(5,6,7) False j1(2)
      by (simp add: consumed_Cons)
    then show ?thesis
      using lim cond a False c t
      by (subst query_loop.simps) (simp add: consumed_Cons consumed_Nil)
  qed
qed

lemma marker_loop_line:
  assumes "drop (nat j) (take (nat (min (start + 50) (int (length alignment)))) alignment) = w"
    and "0 \<le> start" and "start \<le> j" and "start + 50 \<le> INT_MAX"
  shows "marker_loop alignment (int (length alignment)) start j = Some (marker_line w)"
  using assms
proof (induction w arbitrary: j)
  case Nil
  have lim: "c_int (start + 50) = Some (start + 50)"
    using Nil.prems by (intro c_int_Some) (simp_all add: INT_MIN_def)
  have ne: "\<not> (j < start + 50 \<and> j < int (length alignment))"
    by (rule window_exit [OF Nil.prems(1,2,3)])
  show ?case
    by (subst marker_loop.simps, simp only: lim option.case if_not_P [OF ne]) (simp add: marker_line_def)
next
  case (Cons a w)
  have lim: "c_int (start + 50) = Some (start + 50)"
    using Cons.prems by (intro c_int_Some) (simp_all add: INT_MIN_def)
  from window_step [OF Cons.prems(1,2,3)]
  have cond: "j < start + 50 \<and> j < int (length alignment)" and a: "at alignment j = Some a"
    and d: "drop (nat (j + 1)) (take (nat (min (start + 50) (int (length alignment)))) alignment) = w"
    by simp_all
  have "marker_loop alignment (int (length alignment)) start (j + 1) = Some (marker_line w)"
    using Cons.IH [OF d Cons.prems(2) _ Cons.prems(4)] Cons.prems(3) by simp
  then show ?case
    using lim cond a by (subst marker_loop.simps) (simp add: marker_line_def)
qed

lemma window_ops:
  assumes "0 \<le> start"
  shows "drop (nat start) (take (nat (min (start + 50) (int (length alignment)))) alignment) =
           take 50 (drop (nat start) alignment)"
proof -
  have "nat (min (start + 50) (int (length alignment))) = min (nat start + 50) (length alignment)"
    using assms by (simp add: min_def) arith
  then have "take (nat (min (start + 50) (int (length alignment)))) alignment =
      take (nat start + 50) alignment"
    by (simp add: min_def)
  then show ?thesis
    by (simp add: drop_take)
qed

lemma windows_Nil: "windows [] = []"
  by (subst windows.simps) simp

lemma windows_Cons: "ops \<noteq> [] \<Longrightarrow> windows ops = take 50 ops # windows (drop 50 ops)"
  by (subst windows.simps) simp

lemma consumed_take_drop:
  "consumed gap ops = consumed gap (take n ops) + consumed gap (drop n ops)"
  using consumed_append [of gap "take n ops" "drop n ops"] by simp

lemma window_loop_render:
  assumes "int (length alignment) + 50 \<le> INT_MAX" and "0 \<le> start"
    and "- 1 \<le> t"
    and "t + consumed EDLIB_EDOP_INSERT (drop (nat start) alignment) < int (length target)"
    and "t + consumed EDLIB_EDOP_INSERT (drop (nat start) alignment) \<le> INT_MAX"
    and "- 1 \<le> q"
    and "q + consumed EDLIB_EDOP_DELETE (drop (nat start) alignment) < int (length query)"
    and "q + consumed EDLIB_EDOP_DELETE (drop (nat start) alignment) \<le> INT_MAX"
  shows "window_loop query target alignment (int (length alignment)) start t q =
           Some (render query target t q (windows (drop (nat start) alignment)))"
  using assms
proof (induction "length alignment - nat start" arbitrary: start t q rule: less_induct)
  case less
  show ?case
  proof (cases "start < int (length alignment)")
    case False
    then have "drop (nat start) alignment = []"
      by simp
    then show ?thesis
      using False by (subst window_loop.simps) (simp add: windows_Nil)
  next
    case True
    let ?ops = "drop (nat start) alignment"
    let ?w = "take 50 ?ops"
    let ?rest = "drop (nat (start + 50)) alignment"
    have ne: "?ops \<noteq> []" and wne: "?w \<noteq> []"
      using True less.prems(2) by simp_all
    have rest: "drop 50 ?ops = ?rest"
      using less.prems(2) by (simp add: nat_add_distrib add.commute)
    have ct: "consumed EDLIB_EDOP_INSERT ?ops =
        consumed EDLIB_EDOP_INSERT ?w + consumed EDLIB_EDOP_INSERT ?rest"
      using consumed_take_drop [of EDLIB_EDOP_INSERT ?ops 50] rest by simp
    have cq: "consumed EDLIB_EDOP_DELETE ?ops =
        consumed EDLIB_EDOP_DELETE ?w + consumed EDLIB_EDOP_DELETE ?rest"
      using consumed_take_drop [of EDLIB_EDOP_DELETE ?ops 50] rest by simp
    have lim: "start + 50 \<le> INT_MAX"
      using True less.prems(1) by simp
    have w: "drop (nat start)
        (take (nat (min (start + 50) (int (length alignment)))) alignment) = ?w"
      by (rule window_ops [OF less.prems(2)])
    have rt: "0 \<le> consumed EDLIB_EDOP_INSERT ?rest" and rq: "0 \<le> consumed EDLIB_EDOP_DELETE ?rest"
      and wt: "0 \<le> consumed EDLIB_EDOP_INSERT ?w" and wq: "0 \<le> consumed EDLIB_EDOP_DELETE ?w"
      by (rule consumed_nonneg)+
    have t1: "t + consumed EDLIB_EDOP_INSERT ?w < int (length target)"
      and t2: "t + consumed EDLIB_EDOP_INSERT ?w \<le> INT_MAX"
      using less.prems(4,5) rt unfolding ct by linarith+
    have q1: "q + consumed EDLIB_EDOP_DELETE ?w < int (length query)"
      and q2: "q + consumed EDLIB_EDOP_DELETE ?w \<le> INT_MAX"
      using less.prems(7,8) rq unfolding cq by linarith+
    have tl: "target_loop target alignment (int (length alignment)) start start t (- 1) =
        Some (sequence_line EDLIB_EDOP_INSERT target t ?w, t + consumed EDLIB_EDOP_INSERT ?w,
              t + consumed EDLIB_EDOP_INSERT (take 1 ?w))"
      unfolding target_loop_line [OF w less.prems(2) order_refl lim less.prems(3) t1 t2]
      using wne by simp
    have ml: "marker_loop alignment (int (length alignment)) start start = Some (marker_line ?w)"
      by (rule marker_loop_line [OF w less.prems(2) order_refl lim])
    have ql: "query_loop query alignment (int (length alignment)) start start q q =
        Some (sequence_line EDLIB_EDOP_DELETE query q ?w, q + consumed EDLIB_EDOP_DELETE ?w,
              q + consumed EDLIB_EDOP_DELETE (take 1 ?w))"
      unfolding query_loop_line [OF w less.prems(2) order_refl lim less.prems(6) q1 q2]
      using wne by simp
    have c: "c_int (start + 50) = Some (start + 50)"
      using lim less.prems(2) by (intro c_int_Some) (simp_all add: INT_MIN_def)
    have smaller: "length alignment - nat (start + 50) < length alignment - nat start"
      using True less.prems(2) by arith
    have s0: "0 \<le> start + 50"
      using less.prems(2) by simp
    have t0: "- 1 \<le> t + consumed EDLIB_EDOP_INSERT ?w" and q0: "- 1 \<le> q + consumed EDLIB_EDOP_DELETE ?w"
      using less.prems(3,6) wt wq by linarith+
    have t3: "t + consumed EDLIB_EDOP_INSERT ?w + consumed EDLIB_EDOP_INSERT ?rest < int (length target)"
      and t4: "t + consumed EDLIB_EDOP_INSERT ?w + consumed EDLIB_EDOP_INSERT ?rest \<le> INT_MAX"
      using less.prems(4,5) unfolding ct by linarith+
    have q3: "q + consumed EDLIB_EDOP_DELETE ?w + consumed EDLIB_EDOP_DELETE ?rest < int (length query)"
      and q4: "q + consumed EDLIB_EDOP_DELETE ?w + consumed EDLIB_EDOP_DELETE ?rest \<le> INT_MAX"
      using less.prems(7,8) unfolding cq by linarith+
    have ih: "window_loop query target alignment (int (length alignment)) (start + 50)
        (t + consumed EDLIB_EDOP_INSERT ?w) (q + consumed EDLIB_EDOP_DELETE ?w) =
      Some (render query target (t + consumed EDLIB_EDOP_INSERT ?w)
        (q + consumed EDLIB_EDOP_DELETE ?w) (windows ?rest))"
      by (rule less.hyps [OF smaller less.prems(1) s0 t0 t3 t4 q0 q3 q4])
    have ws: "windows ?ops = ?w # windows ?rest"
      using windows_Cons [OF ne] rest by simp
    show ?thesis
      by (subst window_loop.simps)
         (simp only: True if_True tl ml ql c ih option.case prod.case ws render.simps
            window_lines_def append_assoc)
  qed
qed

lemma concat_windows: "concat (windows ops) = ops"
proof (induction ops rule: windows.induct)
  case (1 ops)
  then show ?case
    by (cases "ops = []") (simp_all add: windows_Nil windows_Cons)
qed

lemma windows_lengths: "w \<in> set (windows ops) \<Longrightarrow> w \<noteq> [] \<and> length w \<le> 50"
proof (induction ops rule: windows.induct)
  case (1 ops)
  then show ?case
    by (cases "ops = []") (auto simp: windows_Nil windows_Cons)
qed

lemma windows_full: "w \<in> set (butlast (windows ops)) \<Longrightarrow> length w = 50"
proof (induction ops rule: windows.induct)
  case (1 ops)
  show ?case
  proof (cases "ops = []")
    case True
    with "1.prems" show ?thesis by (simp add: windows_Nil)
  next
    case False
    show ?thesis
    proof (cases "windows (drop 50 ops) = []")
      case True
      with "1.prems" False show ?thesis by (simp add: windows_Cons)
    next
      case more: False
      then have "drop 50 ops \<noteq> []"
        using windows_Nil by auto
      then have "length (take 50 ops) = 50"
        by simp
      then show ?thesis
        using "1.prems" "1.IH" [OF False] False more by (auto simp: windows_Cons)
    qed
  qed
qed


lemma printAlignment_render:
  assumes "int (length alignment) + 50 \<le> INT_MAX" and "position \<le> INT_MAX"
    and "- 1 \<le> start_cursor modeCode position alignment"
    and "start_cursor modeCode position alignment + consumed EDLIB_EDOP_INSERT alignment
           < int (length target)"
    and "consumed EDLIB_EDOP_DELETE alignment \<le> int (length query)"
  shows "printAlignment query target alignment (int (length alignment)) position modeCode =
           Some (render query target (start_cursor modeCode position alignment) (- 1)
                   (windows alignment))"
proof -
  let ?t = "start_cursor modeCode position alignment"
  have pre: "(if modeCode = EDLIB_MODE_HW
      then hw_loop alignment (int (length alignment)) 0 position else Some (- 1)) = Some ?t"
  proof (cases "modeCode = EDLIB_MODE_HW")
    case True
    have "INT_MIN \<le> position - consumed EDLIB_EDOP_INSERT alignment"
      using assms(3) True by (simp add: start_cursor_def INT_MIN_def)
    then have "hw_loop alignment (int (length alignment)) 0 position =
        Some (position - consumed EDLIB_EDOP_INSERT alignment)"
      using assms(2) by (intro hw_loop_offset) simp_all
    then show ?thesis
      using True by (simp add: start_cursor_def)
  next
    case False
    then show ?thesis by (simp add: start_cursor_def)
  qed
  have le: "consumed EDLIB_EDOP_INSERT alignment \<le> int (length alignment)"
      "consumed EDLIB_EDOP_DELETE alignment \<le> int (length alignment)"
    by (rule consumed_le_length)+
  have tmax: "?t + consumed EDLIB_EDOP_INSERT alignment \<le> INT_MAX"
    using assms(1,2) le(1) by (cases "modeCode = EDLIB_MODE_HW") (simp_all add: start_cursor_def)
  have qmax: "- 1 + consumed EDLIB_EDOP_DELETE alignment \<le> INT_MAX"
    using assms(1) le(2) by simp
  have q: "- 1 + consumed EDLIB_EDOP_DELETE alignment < int (length query)"
    using assms(5) by simp
  have "window_loop query target alignment (int (length alignment)) 0 ?t (- 1) =
      Some (render query target ?t (- 1) (windows (drop (nat 0) alignment)))"
    using assms(1,3,4) tmax qmax q by (intro window_loop_render) simp_all
  then show ?thesis
    unfolding printAlignment_def pre by simp
qed

text \<open>
  Claim C5. When the buffers are long enough for the script (and the script is shorter than
  \<open>INT_MAX - 50\<close>), \<open>printAlignment\<close> prints, for each window of 50 operations in turn (the
  windows put end to end are the script, every window but the last has 50 operations, the
  last has between 1 and 50), three lines: \<open>T: \<close> and, for each operation, \<open>-\<close> for INSERT
  and the next target symbol otherwise; three spaces and, for each operation, \<open>|\<close> for MATCH
  and a space otherwise; \<open>Q: \<close> and, for each operation, \<open>-\<close> for DELETE and the next query
  symbol otherwise. Each sequence line ends with its inclusive range of coordinates, from
  that of its first column (0 when negative) to that of its last; the coordinate of a column
  is the index of the symbol it shows, or of the last symbol before it when it is a gap.
\<close>

theorem printAlignment_windows:
  assumes "int (length alignment) + 50 \<le> INT_MAX" and "position \<le> INT_MAX"
    and "- 1 \<le> start_cursor modeCode position alignment"
    and "start_cursor modeCode position alignment + consumed EDLIB_EDOP_INSERT alignment
           < int (length target)"
    and "consumed EDLIB_EDOP_DELETE alignment \<le> int (length query)"
  shows "printAlignment query target alignment (int (length alignment)) position modeCode =
           Some (render query target (start_cursor modeCode position alignment) (- 1)
                   (windows alignment)) \<and>
         concat (windows alignment) = alignment \<and>
         (\<forall>w \<in> set (windows alignment). w \<noteq> [] \<and> length w \<le> 50) \<and>
         (\<forall>w \<in> set (butlast (windows alignment)). length w = 50)"
  using printAlignment_render [OF assms] concat_windows [of alignment]
    windows_lengths [of _ alignment] windows_full [of _ alignment]
  by blast

lemma target_loop_Text:
  "target_loop target alignment n start j tIdx s = Some (ps, r) \<Longrightarrow> p \<in> set ps \<Longrightarrow>
   \<exists>x. p = Text x"
proof (induction target alignment n start j tIdx s arbitrary: ps r rule: target_loop.induct)
  case (1 target alignment n start j tIdx s)
  have "\<exists>lim. c_int (start + 50) = Some lim"
    using "1.prems"(1) by (subst (asm) target_loop.simps) (auto split: option.splits)
  then obtain lim where lim: "c_int (start + 50) = Some lim"
    by blast
  show ?case
  proof (cases "j < lim \<and> j < n")
    case False
    with "1.prems" lim show ?thesis
      by (subst (asm) target_loop.simps) auto
  next
    case True
    have "\<exists>a. at alignment j = Some a"
      using "1.prems"(1) lim True
      by (subst (asm) target_loop.simps) (auto split: option.splits)
    then obtain a where a: "at alignment j = Some a"
      by blast
    define step where "step =
      (if a = EDLIB_EDOP_INSERT then Some (Text ''-'', tIdx)
       else (case c_int (tIdx + 1) of None \<Rightarrow> None
             | Some t \<Rightarrow> (case at target t of None \<Rightarrow> None
                           | Some c \<Rightarrow> Some (Text [c], t))))"
    have u: "(case step of None \<Rightarrow> None
        | Some (p, i') \<Rightarrow>
            (case target_loop target alignment n start (j + 1) i' (if j = start then i' else s) of
               None \<Rightarrow> None
             | Some (ps, r) \<Rightarrow> Some (p # ps, r))) = Some (ps, r)"
      using "1.prems"(1) unfolding step_def
      by (subst (asm) target_loop.simps) (simp only: lim option.case True if_True a simp_thms)
    then obtain x i' where step: "step = Some (x, i')"
      by (cases step) auto
    with u obtain ps' where
      rec: "target_loop target alignment n start (j + 1) i' (if j = start then i' else s) = Some (ps', r)"
      and ps: "ps = x # ps'"
      by (auto split: option.splits prod.splits)
    have x: "\<exists>y. x = Text y"
      using step unfolding step_def by (auto split: if_splits option.splits)
    from "1.IH" [OF lim True a step [unfolded step_def] refl rec] x ps "1.prems"(2)
    show ?thesis
      by auto
  qed
qed

lemma query_loop_Text:
  "query_loop query alignment n start j qIdx s = Some (ps, r) \<Longrightarrow> p \<in> set ps \<Longrightarrow>
   \<exists>x. p = Text x"
proof (induction query alignment n start j qIdx s arbitrary: ps r rule: query_loop.induct)
  case (1 query alignment n start j qIdx s)
  have "\<exists>lim. c_int (start + 50) = Some lim"
    using "1.prems"(1) by (subst (asm) query_loop.simps) (auto split: option.splits)
  then obtain lim where lim: "c_int (start + 50) = Some lim"
    by blast
  show ?case
  proof (cases "j < lim \<and> j < n")
    case False
    with "1.prems" lim show ?thesis
      by (subst (asm) query_loop.simps) auto
  next
    case True
    have "\<exists>a. at alignment j = Some a"
      using "1.prems"(1) lim True
      by (subst (asm) query_loop.simps) (auto split: option.splits)
    then obtain a where a: "at alignment j = Some a"
      by blast
    define step where "step =
      (if a = EDLIB_EDOP_DELETE then Some (Text ''-'', qIdx)
       else (case c_int (qIdx + 1) of None \<Rightarrow> None
             | Some t \<Rightarrow> (case at query t of None \<Rightarrow> None
                           | Some c \<Rightarrow> Some (Text [c], t))))"
    have u: "(case step of None \<Rightarrow> None
        | Some (p, i') \<Rightarrow>
            (case query_loop query alignment n start (j + 1) i' (if j = start then i' else s) of
               None \<Rightarrow> None
             | Some (ps, r) \<Rightarrow> Some (p # ps, r))) = Some (ps, r)"
      using "1.prems"(1) unfolding step_def
      by (subst (asm) query_loop.simps) (simp only: lim option.case True if_True a simp_thms)
    then obtain x i' where step: "step = Some (x, i')"
      by (cases step) auto
    with u obtain ps' where
      rec: "query_loop query alignment n start (j + 1) i' (if j = start then i' else s) = Some (ps', r)"
      and ps: "ps = x # ps'"
      by (auto split: option.splits prod.splits)
    have x: "\<exists>y. x = Text y"
      using step unfolding step_def by (auto split: if_splits option.splits)
    from "1.IH" [OF lim True a step [unfolded step_def] refl rec] x ps "1.prems"(2)
    show ?thesis
      by auto
  qed
qed

lemma marker_loop_Text:
  "marker_loop alignment n start j = Some ps \<Longrightarrow> p \<in> set ps \<Longrightarrow> \<exists>x. p = Text x"
proof (induction alignment n start j arbitrary: ps rule: marker_loop.induct)
  case (1 alignment n start j)
  have "\<exists>lim. c_int (start + 50) = Some lim"
    using "1.prems"(1) by (subst (asm) marker_loop.simps) (auto split: option.splits)
  then obtain lim where lim: "c_int (start + 50) = Some lim"
    by blast
  show ?case
  proof (cases "j < lim \<and> j < n")
    case False
    with "1.prems" lim show ?thesis
      by (subst (asm) marker_loop.simps) auto
  next
    case True
    have "\<exists>a ps'. at alignment j = Some a \<and>
        marker_loop alignment n start (j + 1) = Some ps' \<and>
        ps = Text (if a = EDLIB_EDOP_MATCH then ''|'' else '' '') # ps'"
      using "1.prems"(1) lim True
      by (subst (asm) marker_loop.simps) (auto split: option.splits)
    then obtain a ps' where a: "at alignment j = Some a"
      and rec: "marker_loop alignment n start (j + 1) = Some ps'"
      and ps: "ps = Text (if a = EDLIB_EDOP_MATCH then ''|'' else '' '') # ps'"
      by blast
    from "1.IH" [OF lim True a rec] ps "1.prems"(2) show ?thesis
      by auto
  qed
qed

lemma window_loop_lower_bound:
  "window_loop query target alignment n start t q = Some out \<Longrightarrow>
   TargetRange lo hi \<in> set out \<Longrightarrow> 0 \<le> lo"
proof (induction query target alignment n start t q arbitrary: out
    rule: window_loop.induct)
  case (1 query target alignment n start t q)
  show ?case
  proof (cases "start < n")
    case False
    with "1.prems" show ?thesis
      by (subst (asm) window_loop.simps) simp
  next
    case True
    note u = "1.prems"(1) [unfolded window_loop.simps [of query target alignment n start t q]]
    obtain tline t' st where
      tl: "target_loop target alignment n start start t (- 1) = Some (tline, t', st)"
      using u True
      by (cases "target_loop target alignment n start start t (- 1)") auto
    obtain mline where ml: "marker_loop alignment n start start = Some mline"
      using u True tl by (cases "marker_loop alignment n start start") auto
    obtain qline q' sq where
      ql: "query_loop query alignment n start start q q = Some (qline, q', sq)"
      using u True tl ml by (cases "query_loop query alignment n start start q q") auto
    obtain start' where c: "c_int (start + 50) = Some start'"
      using u True tl ml ql by (cases "c_int (start + 50)") auto
    obtain rest where rec: "window_loop query target alignment n start' t' q' = Some rest"
      using u True tl ml ql c
      by (cases "window_loop query target alignment n start' t' q'") auto
    have out: "out = [Text ''T: ''] @ tline @ [TargetRange (max st 0) t'] @ [Text ''   ''] @
        mline @ [Text ''\<newline>''] @ [Text ''Q: ''] @ qline @ [QueryRange (max sq 0) q'] @ rest"
      using u True tl ml ql c rec by simp
    have ih: "TargetRange lo hi \<in> set rest \<Longrightarrow> 0 \<le> lo"
      using "1.IH" [OF True tl refl refl ml ql refl refl c rec] by simp
    from "1.prems"(2) show ?thesis
      unfolding out
      using target_loop_Text [OF tl] marker_loop_Text [OF ml] query_loop_Text [OF ql] ih
      by auto
  qed
qed

theorem printAlignment_windows_witness:
  "printAlignment ''ATCT'' ''ACGT''
     [EDLIB_EDOP_MATCH, EDLIB_EDOP_MISMATCH, EDLIB_EDOP_INSERT, EDLIB_EDOP_DELETE,
      EDLIB_EDOP_MATCH] 5 0 EDLIB_MODE_NW =
     Some [Text ''T: '', Text ''A'', Text ''C'', Text ''-'', Text ''G'', Text ''T'',
           TargetRange 0 3,
           Text ''   '', Text ''|'', Text '' '', Text '' '', Text '' '', Text ''|'', Text ''\<newline>'',
           Text ''Q: '', Text ''A'', Text ''T'', Text ''C'', Text ''-'', Text ''T'',
           QueryRange 0 3] \<and>
   windows [EDLIB_EDOP_MATCH, EDLIB_EDOP_MISMATCH, EDLIB_EDOP_INSERT, EDLIB_EDOP_DELETE,
      EDLIB_EDOP_MATCH] =
     [[EDLIB_EDOP_MATCH, EDLIB_EDOP_MISMATCH, EDLIB_EDOP_INSERT, EDLIB_EDOP_DELETE,
       EDLIB_EDOP_MATCH]]"
proof -
  let ?a = "[EDLIB_EDOP_MATCH, EDLIB_EDOP_MISMATCH, EDLIB_EDOP_INSERT, EDLIB_EDOP_DELETE,
      EDLIB_EDOP_MATCH]"
  have ops: "EDLIB_EDOP_MATCH \<noteq> EDLIB_EDOP_INSERT" "EDLIB_EDOP_MISMATCH \<noteq> EDLIB_EDOP_INSERT"
      "EDLIB_EDOP_DELETE \<noteq> EDLIB_EDOP_INSERT" "EDLIB_EDOP_MATCH \<noteq> EDLIB_EDOP_DELETE"
      "EDLIB_EDOP_MISMATCH \<noteq> EDLIB_EDOP_DELETE" "EDLIB_EDOP_INSERT \<noteq> EDLIB_EDOP_DELETE"
      "EDLIB_EDOP_MISMATCH \<noteq> EDLIB_EDOP_MATCH" "EDLIB_EDOP_INSERT \<noteq> EDLIB_EDOP_MATCH"
      "EDLIB_EDOP_DELETE \<noteq> EDLIB_EDOP_MATCH"
    by (simp_all add: EDLIB_EDOP_MATCH_def EDLIB_EDOP_INSERT_def EDLIB_EDOP_DELETE_def
          EDLIB_EDOP_MISMATCH_def)
  have ci: "consumed EDLIB_EDOP_INSERT ?a = 4" and cd: "consumed EDLIB_EDOP_DELETE ?a = 4"
    using ops by (simp_all add: consumed_def)
  have h1: "int (length ?a) + 50 \<le> INT_MAX" and h2: "(0 :: int) \<le> INT_MAX"
    by (simp_all add: INT_MAX_def)
  have h3: "- 1 \<le> start_cursor EDLIB_MODE_NW 0 ?a"
    by (simp add: start_cursor_def)
  have h4: "start_cursor EDLIB_MODE_NW 0 ?a + consumed EDLIB_EDOP_INSERT ?a
      < int (length ''ACGT'')"
    unfolding ci by (simp add: start_cursor_def)
  have h5: "consumed EDLIB_EDOP_DELETE ?a \<le> int (length ''ATCT'')"
    unfolding cd by simp
  have w: "windows ?a = [?a]"
    by (simp add: windows_Cons windows_Nil)
  have r: "render ''ATCT'' ''ACGT'' (start_cursor EDLIB_MODE_NW 0 ?a) (- 1) [?a] =
     [Text ''T: '', Text ''A'', Text ''C'', Text ''-'', Text ''G'', Text ''T'',
      TargetRange 0 3,
      Text ''   '', Text ''|'', Text '' '', Text '' '', Text '' '', Text ''|'', Text ''\<newline>'',
      Text ''Q: '', Text ''A'', Text ''T'', Text ''C'', Text ''-'', Text ''T'',
      QueryRange 0 3]"
    using ops
    by (simp add: start_cursor_def window_lines_def marker_line_def consumed_Cons consumed_Nil)
  from printAlignment_windows [OF h1 h2 h3 h4 h5] show ?thesis
    unfolding w r by simp
qed

text \<open>
  A script of 52 operations: two windows. The second window starts with an INSERT, a gap
  whose coordinate is 49, the index of the last target symbol of the first window; the
  target symbol after it has index 50, and the range printed is 49 to 50.
\<close>

lemma printAlignment_two_windows:
  "printAlignment (replicate 52 (CHR ''A'')) (replicate 51 (CHR ''A''))
     (replicate 50 EDLIB_EDOP_MATCH @ [EDLIB_EDOP_INSERT, EDLIB_EDOP_MATCH]) 52 0 EDLIB_MODE_NW =
   Some ([Text ''T: ''] @ replicate 50 (Text ''A'') @ [TargetRange 0 49] @
         [Text ''   ''] @ replicate 50 (Text ''|'') @ [Text ''\<newline>''] @
         [Text ''Q: ''] @ replicate 50 (Text ''A'') @ [QueryRange 0 49] @
         [Text ''T: '', Text ''-'', Text ''A'', TargetRange 49 50,
          Text ''   '', Text '' '', Text ''|'', Text ''\<newline>'',
          Text ''Q: '', Text ''A'', Text ''A'', QueryRange 50 51])"
  by code_simp

text \<open>
  Claim C4. In mode HW the first loop walks the whole script once, from \<open>tIdx = position\<close>,
  and leaves \<open>position\<close> minus the number of operations other than INSERT (when that number
  is an \<open>int\<close>, so that no decrement overflows); the window loop starts from this value. In
  every mode and for every input, each target range that is printed has a lower bound of at
  least 0.
\<close>

theorem hw_start_offset:
  "(INT_MIN \<le> position - consumed EDLIB_EDOP_INSERT alignment \<and> position \<le> INT_MAX \<longrightarrow>
      hw_loop alignment (int (length alignment)) 0 position =
        Some (position - consumed EDLIB_EDOP_INSERT alignment)) \<and>
   printAlignment query target alignment alignmentLength position EDLIB_MODE_HW =
     (case hw_loop alignment alignmentLength 0 position of
        None \<Rightarrow> None
      | Some tIdx \<Rightarrow> window_loop query target alignment alignmentLength 0 tIdx (- 1)) \<and>
   (printAlignment query target alignment alignmentLength position modeCode = Some out \<and>
    TargetRange lo hi \<in> set out \<longrightarrow> 0 \<le> lo)"
proof -
  have 1: "hw_loop alignment (int (length alignment)) 0 position =
      Some (position - consumed EDLIB_EDOP_INSERT alignment)"
    if "INT_MIN \<le> position - consumed EDLIB_EDOP_INSERT alignment" "position \<le> INT_MAX"
    using that by (intro hw_loop_offset) simp_all
  have 2: "printAlignment query target alignment alignmentLength position EDLIB_MODE_HW =
     (case hw_loop alignment alignmentLength 0 position of
        None \<Rightarrow> None
      | Some tIdx \<Rightarrow> window_loop query target alignment alignmentLength 0 tIdx (- 1))"
    by (simp add: printAlignment_def)
  have 3: "0 \<le> lo"
    if "printAlignment query target alignment alignmentLength position modeCode = Some out"
      "TargetRange lo hi \<in> set out"
    using that window_loop_lower_bound [of query target alignment alignmentLength 0 _ "- 1" out lo hi]
    by (auto simp: printAlignment_def split: option.splits if_splits)
  show ?thesis
    using 1 2 3 by blast
qed

theorem hw_start_offset_witness:
  "hw_loop [EDLIB_EDOP_MATCH, EDLIB_EDOP_DELETE, EDLIB_EDOP_MATCH, EDLIB_EDOP_MATCH,
            EDLIB_EDOP_INSERT] 5 0 5 = Some 1 \<and>
   consumed EDLIB_EDOP_INSERT [EDLIB_EDOP_MATCH, EDLIB_EDOP_DELETE, EDLIB_EDOP_MATCH,
     EDLIB_EDOP_MATCH, EDLIB_EDOP_INSERT] = 4 \<and>
   printAlignment ''ATAC'' ''GGACTAGG''
     [EDLIB_EDOP_MATCH, EDLIB_EDOP_DELETE, EDLIB_EDOP_MATCH, EDLIB_EDOP_MATCH,
      EDLIB_EDOP_INSERT] 5 5 EDLIB_MODE_HW =
     Some [Text ''T: '', Text ''A'', Text ''C'', Text ''T'', Text ''A'', Text ''-'',
           TargetRange 2 5,
           Text ''   '', Text ''|'', Text '' '', Text ''|'', Text ''|'', Text '' '', Text ''\<newline>'',
           Text ''Q: '', Text ''A'', Text ''-'', Text ''T'', Text ''A'', Text ''C'',
           QueryRange 0 3] \<and>
   (0 :: int) \<le> 2"
proof -
  let ?a = "[EDLIB_EDOP_MATCH, EDLIB_EDOP_DELETE, EDLIB_EDOP_MATCH, EDLIB_EDOP_MATCH,
      EDLIB_EDOP_INSERT]"
  let ?out = "[Text ''T: '', Text ''A'', Text ''C'', Text ''T'', Text ''A'', Text ''-'',
           TargetRange 2 5,
           Text ''   '', Text ''|'', Text '' '', Text ''|'', Text ''|'', Text '' '', Text ''\<newline>'',
           Text ''Q: '', Text ''A'', Text ''-'', Text ''T'', Text ''A'', Text ''C'',
           QueryRange 0 3]"
  have c: "consumed EDLIB_EDOP_INSERT ?a = 4"
    by code_simp
  have p: "printAlignment ''ATAC'' ''GGACTAGG'' ?a 5 5 EDLIB_MODE_HW = Some ?out"
    by code_simp
  have m: "TargetRange 2 5 \<in> set ?out"
    by simp
  have b: "INT_MIN \<le> 5 - consumed EDLIB_EDOP_INSERT ?a \<and> (5 :: int) \<le> INT_MAX"
    unfolding c by (simp add: INT_MIN_def INT_MAX_def)
  from hw_start_offset [of 5 ?a "''ATAC''" "''GGACTAGG''" 5 EDLIB_MODE_HW ?out 2 5] b p m c
  show ?thesis
    by simp
qed

end
